theory Spec2Isabelle
  imports Main
begin

section \<open>The world the generator script acts on\<close>

text \<open>
  The script \<^verbatim>\<open>generate-darwin-source-and-headers.py\<close> only moves text between files,
  creates directories and starts a configure command. Its model threads an explicit
  world through every call:
  \<^item> \<open>files\<close>: the regular files, an association list from path to content. Paths are the
    strings the script hands to the system calls, read relative to the directory the
    script is started in; the content of a file is the list of its bytes;
  \<^item> \<open>dirs\<close>: the directories that exist;
  \<^item> \<open>cwd\<close>: the current working directory of the process, without its leading slash
    (so that \<open>os_getcwd\<close> always returns an absolute path);
  \<^item> \<open>events\<close>: the system calls issued so far, newest first.
  An exception is a value: every operation returns an \<open>outcome\<close> together with the world
  it leaves behind, also when it raises.
\<close>

type_synonym path = string

datatype errno = EEXIST | ENOENT | ENOTDIR | EISDIR

datatype error = OSError errno | CalledProcessError int | UnicodeDecodeError

datatype outcome = Ok | Raised error

datatype event =
    Makedirs path
  | Open_read path
  | Open_write path
  | Chdir path
  | Check_call path "string list" "(string \<times> string) list" int

record world =
  files :: "(path \<times> string) list"
  dirs :: "path list"
  cwd :: path
  events :: "event list"

text \<open>
  The configure command is outside the repository. It is a parameter of the model: given
  the directory it runs in, its argument vector, its environment and the file system
  (files and directories), it returns its exit status and the file system it leaves.
\<close>

type_synonym filesystem = "(path \<times> string) list \<times> path list"

type_synonym command =
  "path \<Rightarrow> string list \<Rightarrow> (string \<times> string) list \<Rightarrow> filesystem \<Rightarrow> int \<times> filesystem"

subsection \<open>Sequencing\<close>

text \<open>Statements in sequence: the first exception ends the sequence.\<close>

fun seq :: "('s \<Rightarrow> outcome \<times> 's) list \<Rightarrow> 's \<Rightarrow> outcome \<times> 's" where
  "seq [] s = (Ok, s)"
| "seq (f # fs) s =
     (case f s of
        (Ok, s') \<Rightarrow> seq fs s'
      | (Raised e, s') \<Rightarrow> (Raised e, s'))"

text \<open>
  \<^verbatim>\<open>try: body finally: fin\<close>. The clean-up runs on both paths; an exception of the
  body is re-raised after it, unless the clean-up raises itself.
\<close>

definition try_finally ::
  "('s \<Rightarrow> outcome \<times> 's) \<Rightarrow> ('s \<Rightarrow> outcome \<times> 's) \<Rightarrow> 's \<Rightarrow> outcome \<times> 's" where
  "try_finally body fin s =
     (case body s of
        (Ok, s1) \<Rightarrow> fin s1
      | (Raised e, s1) \<Rightarrow>
          (case fin s1 of
             (Ok, s2) \<Rightarrow> (Raised e, s2)
           | (Raised e', s2) \<Rightarrow> (Raised e', s2)))"

subsection \<open>Path functions of the Python library (POSIX flavour)\<close>

fun rfind_from :: "char \<Rightarrow> string \<Rightarrow> int \<Rightarrow> int \<Rightarrow> int" where
  "rfind_from c [] i r = r"
| "rfind_from c (x # xs) i r = rfind_from c xs (i + 1) (if x = c then i else r)"

text \<open>\<^verbatim>\<open>str.rfind\<close>: the index of the last occurrence, or -1.\<close>

definition rfind :: "char \<Rightarrow> string \<Rightarrow> int" where
  "rfind c s = rfind_from c s 0 (- 1)"

definition os_path_join :: "path \<Rightarrow> path \<Rightarrow> path" where
  "os_path_join a b =
     (if b \<noteq> [] \<and> hd b = CHR ''/'' then b
      else if a = [] \<or> last a = CHR ''/'' then a @ b
      else a @ ''/'' @ b)"

definition os_path_basename :: "path \<Rightarrow> path" where
  "os_path_basename p = drop (nat (rfind CHR ''/'' p + 1)) p"

definition os_path_dirname :: "path \<Rightarrow> path" where
  "os_path_dirname p =
     (let head = take (nat (rfind CHR ''/'' p + 1)) p in
      if head \<noteq> [] \<and> \<not> list_all (\<lambda>c. c = CHR ''/'') head
      then rev (dropWhile (\<lambda>c. c = CHR ''/'') (rev head))
      else head)"

text \<open>
  \<^verbatim>\<open>os.path.splitext\<close>: the extension starts at the last dot of the last path component,
  unless only dots precede it there.
\<close>

definition os_path_splitext :: "path \<Rightarrow> path \<times> path" where
  "os_path_splitext p =
     (let sepIndex = rfind CHR ''/'' p;
          dotIndex = rfind CHR ''.'' p
      in if dotIndex > sepIndex \<and>
            list_ex (\<lambda>c. c \<noteq> CHR ''.'')
              (take (nat (dotIndex - (sepIndex + 1))) (drop (nat (sepIndex + 1)) p))
         then (take (nat dotIndex) p, drop (nat dotIndex) p)
         else (p, []))"

subsection \<open>Text mode\<close>

text \<open>
  The script opens every file in text mode and gives neither an encoding nor a newline
  argument. Under Python 3 on the Darwin host the script is made for (it calls
  \<^verbatim>\<open>xcrun\<close>) this means:
  \<^item> \<^verbatim>\<open>read()\<close> decodes the bytes of the file with the preferred encoding of the locale,
    which is taken to be UTF-8, the default on that host, and raises
    \<^verbatim>\<open>UnicodeDecodeError\<close> when they are not well-formed UTF-8;
  \<^item> it then turns the line endings CR LF and CR into LF (universal newlines);
  \<^item> \<^verbatim>\<open>write()\<close> encodes the text as UTF-8 and writes LF as \<^verbatim>\<open>os.linesep\<close>, which is LF
    on that host.
  A text (a \<^verbatim>\<open>str\<close> of Python) is held as its UTF-8 encoding: decoding is the check that
  the bytes are well-formed, and encoding changes nothing. CR and LF are single bytes that
  occur in no longer sequence of well-formed UTF-8, so the line endings are translated on
  the bytes. File names are texts (the file systems of that host only take well-formed
  UTF-8 names), and so are the literals of the script.
\<close>

definition continuation :: "nat \<Rightarrow> bool" where
  "continuation b = (0x80 \<le> b \<and> b \<le> 0xBF)"

text \<open>
  Well-formed UTF-8 (the Unicode Standard, table 3-7), which is what the decoder of Python
  accepts: no overlong form, no surrogate, nothing above U+10FFFF.
\<close>

fun well_formed_utf8 :: "nat list \<Rightarrow> bool" where
  "well_formed_utf8 [] = True"
| "well_formed_utf8 (b # bs) =
     (if b \<le> 0x7F then well_formed_utf8 bs
      else if 0xC2 \<le> b \<and> b \<le> 0xDF then
        (case bs of
           c # r \<Rightarrow> continuation c \<and> well_formed_utf8 r
         | _ \<Rightarrow> False)
      else if 0xE0 \<le> b \<and> b \<le> 0xEF then
        (case bs of
           c # d # r \<Rightarrow>
             (if b = 0xE0 then 0xA0 \<le> c \<and> c \<le> 0xBF
              else if b = 0xED then 0x80 \<le> c \<and> c \<le> 0x9F
              else continuation c) \<and>
             continuation d \<and> well_formed_utf8 r
         | _ \<Rightarrow> False)
      else if 0xF0 \<le> b \<and> b \<le> 0xF4 then
        (case bs of
           c # d # e # r \<Rightarrow>
             (if b = 0xF0 then 0x90 \<le> c \<and> c \<le> 0xBF
              else if b = 0xF4 then 0x80 \<le> c \<and> c \<le> 0x8F
              else continuation c) \<and>
             continuation d \<and> continuation e \<and> well_formed_utf8 r
         | _ \<Rightarrow> False)
      else False)"

text \<open>\<^verbatim>\<open>bytes.decode('utf-8')\<close>, with \<open>None\<close> for \<^verbatim>\<open>UnicodeDecodeError\<close>.\<close>

definition decode :: "string \<Rightarrow> string option" where
  "decode bytes = (if well_formed_utf8 (map of_char bytes) then Some bytes else None)"

text \<open>The translation of line endings on input: CR LF and CR become LF.\<close>

fun universal_newlines :: "string \<Rightarrow> string" where
  "universal_newlines [] = []"
| "universal_newlines [c] = [if c = CHR 0x0D then CHR 0x0A else c]"
| "universal_newlines (c # d # cs) =
     (if c = CHR 0x0D \<and> d = CHR 0x0A then CHR 0x0A # universal_newlines cs
      else if c = CHR 0x0D then CHR 0x0A # universal_newlines (d # cs)
      else c # universal_newlines (d # cs))"

text \<open>What \<^verbatim>\<open>read()\<close> returns for a file that holds the given bytes.\<close>

definition read_text :: "string \<Rightarrow> string option" where
  "read_text bytes = map_option universal_newlines (decode bytes)"

subsection \<open>System calls\<close>

definition log_event :: "event \<Rightarrow> world \<Rightarrow> world" where
  "log_event e w = w\<lparr>events := e # events w\<rparr>"

definition read_file :: "world \<Rightarrow> path \<Rightarrow> string option" where
  "read_file w p = map_of (files w) p"

definition is_file :: "world \<Rightarrow> path \<Rightarrow> bool" where
  "is_file w p = (read_file w p \<noteq> None)"

definition is_dir :: "world \<Rightarrow> path \<Rightarrow> bool" where
  "is_dir w p = (p \<in> set (dirs w))"

definition put_file :: "path \<Rightarrow> string \<Rightarrow> world \<Rightarrow> world" where
  "put_file p c w = w\<lparr>files := (p, c) # filter (\<lambda>kv. fst kv \<noteq> p) (files w)\<rparr>"

text \<open>The proper ancestors of a path, outermost first: \<open>a/b/c\<close> has \<open>a\<close> and \<open>a/b\<close>.\<close>

fun ancestors_from :: "path \<Rightarrow> path \<Rightarrow> path list" where
  "ancestors_from acc [] = []"
| "ancestors_from acc (c # cs) =
     (if c = CHR ''/'' \<and> acc \<noteq> [] then acc # ancestors_from (acc @ [c]) cs
      else ancestors_from (acc @ [c]) cs)"

definition ancestors :: "path \<Rightarrow> path list" where
  "ancestors p = ancestors_from [] p"

text \<open>
  \<^verbatim>\<open>os.makedirs(path)\<close>: creates the directory and every missing ancestor. It raises
  \<^verbatim>\<open>EEXIST\<close> when the path exists already, as a directory or as a file, \<^verbatim>\<open>ENOENT\<close> on
  the empty path and \<^verbatim>\<open>ENOTDIR\<close> when an ancestor is a regular file. Permissions are
  not modelled.
\<close>

definition os_makedirs :: "path \<Rightarrow> world \<Rightarrow> outcome \<times> world" where
  "os_makedirs p w =
     (let w1 = log_event (Makedirs p) w in
      if is_dir w p \<or> is_file w p then (Raised (OSError EEXIST), w1)
      else if p = [] then (Raised (OSError ENOENT), w1)
      else if list_ex (is_file w) (ancestors p) then (Raised (OSError ENOTDIR), w1)
      else (Ok, w1\<lparr>dirs := dirs w @ filter (\<lambda>d. \<not> is_dir w d) (ancestors p @ [p])\<rparr>))"

text \<open>
  Opening a file for reading needs the file; opening it for writing needs its directory
  (the start directory itself, the empty name, always exists) and truncates the file.
\<close>

definition open_read :: "path \<Rightarrow> world \<Rightarrow> outcome \<times> world" where
  "open_read p w =
     (let w1 = log_event (Open_read p) w in
      if is_file w p then (Ok, w1)
      else if is_dir w p then (Raised (OSError EISDIR), w1)
      else (Raised (OSError ENOENT), w1))"

definition open_write :: "path \<Rightarrow> world \<Rightarrow> outcome \<times> world" where
  "open_write p w =
     (let w1 = log_event (Open_write p) w; d = os_path_dirname p in
      if is_dir w p then (Raised (OSError EISDIR), w1)
      else if d \<noteq> [] \<and> is_file w d then (Raised (OSError ENOTDIR), w1)
      else if d \<noteq> [] \<and> \<not> is_dir w d then (Raised (OSError ENOENT), w1)
      else (Ok, put_file p [] w1))"

definition os_getcwd :: "world \<Rightarrow> path" where
  "os_getcwd w = CHR ''/'' # cwd w"

text \<open>
  \<^verbatim>\<open>os.chdir\<close>. A relative argument must name an existing directory. An absolute
  argument is taken to exist: the only absolute path the script passes is an earlier
  result of \<^verbatim>\<open>os.getcwd()\<close>, and the directory the script works in is assumed to stay.
\<close>

definition os_chdir :: "path \<Rightarrow> world \<Rightarrow> outcome \<times> world" where
  "os_chdir p w =
     (let w1 = log_event (Chdir p) w in
      if p \<noteq> [] \<and> hd p = CHR ''/'' then (Ok, w1\<lparr>cwd := tl p\<rparr>)
      else if is_dir w p then (Ok, w1\<lparr>cwd := tl (os_path_join (os_getcwd w) p)\<rparr>)
      else if is_file w p then (Raised (OSError ENOTDIR), w1)
      else (Raised (OSError ENOENT), w1))"

text \<open>
  \<^verbatim>\<open>subprocess.check_call\<close>: runs the command in the current directory and raises
  \<^verbatim>\<open>CalledProcessError\<close> on a non-zero exit status. The command may change files and
  directories; it cannot change the working directory of the script.
\<close>

definition check_call ::
  "command \<Rightarrow> string list \<Rightarrow> (string \<times> string) list \<Rightarrow> world \<Rightarrow> outcome \<times> world" where
  "check_call cmd argv env w =
     (case cmd (os_getcwd w) argv env (files w, dirs w) of
        (status, (fs', ds')) \<Rightarrow>
          (let w1 = log_event (Check_call (os_getcwd w) argv env status)
                      (w\<lparr>files := fs', dirs := ds'\<rparr>)
           in if status = 0 then (Ok, w1) else (Raised (CalledProcessError status), w1)))"

text \<open>
  Shell-style matching of one name (\<^verbatim>\<open>fnmatch\<close>) for patterns built from literal
  characters, \<^verbatim>\<open>*\<close> and \<^verbatim>\<open>?\<close>; the script uses \<^verbatim>\<open>*.c\<close> and \<^verbatim>\<open>*.h\<close>.
\<close>

fun fnmatch :: "string \<Rightarrow> string \<Rightarrow> bool" where
  "fnmatch [] [] = True"
| "fnmatch (c # cs) [] = False"
| "fnmatch [] (q # qs) = (q = CHR ''*'' \<and> fnmatch [] qs)"
| "fnmatch (c # cs) (q # qs) =
     (if q = CHR ''*'' then fnmatch (c # cs) qs \<or> fnmatch cs (q # qs)
      else (q = CHR ''?'' \<or> q = c) \<and> fnmatch cs qs)"

text \<open>The names directly inside a directory: files and directories.\<close>

definition entry_name :: "path \<Rightarrow> path \<Rightarrow> string option" where
  "entry_name d p =
     (let pre = (if d = [] then [] else d @ ''/''); n = drop (length pre) p in
      if take (length pre) p = pre \<and> n \<noteq> [] \<and> CHR ''/'' \<notin> set n then Some n else None)"

definition listdir :: "path \<Rightarrow> world \<Rightarrow> string list" where
  "listdir d w = remdups (List.map_filter (entry_name d) (map fst (files w) @ dirs w))"

text \<open>
  \<^verbatim>\<open>glob.iglob\<close> for a pattern whose directory part is a literal name: the paths of the
  entries of that directory whose name matches; names starting with a dot only match a
  pattern that starts with a dot. A directory that does not exist has no entries. The
  order of the result is that of the model's lists.
\<close>

definition glob_iglob :: "path \<Rightarrow> world \<Rightarrow> path list" where
  "glob_iglob pathname w =
     (let d = os_path_dirname pathname; pat = os_path_basename pathname in
      map (os_path_join d)
        (filter (\<lambda>n. fnmatch n pat \<and> (hd n = CHR ''.'' \<longrightarrow> pat \<noteq> [] \<and> hd pat = CHR ''.''))
           (listdir d w)))"

section \<open>The script\<close>

subsection \<open>Platform descriptors\<close>

record platform =
  directory :: string
  sdk :: string
  arch :: string
  triple :: string
  version_min :: string
  prefix :: string
  suffix :: string
  src_dir :: string
  src_files :: "string list"
  hdr_files :: "string list"

abbreviation newline :: string where
  "newline \<equiv> [CHR 0x0A]"

definition ios_simulator_platform :: platform where
  "ios_simulator_platform =
     \<lparr>directory = ''darwin_ios'', sdk = ''iphonesimulator'', arch = ''i386'',
      triple = ''i386-apple-darwin11'', version_min = ''-miphoneos-version-min=8.0'',
      prefix = ''#ifdef __i386__'' @ newline @ newline, suffix = newline @ newline @ ''#endif'',
      src_dir = ''x86'', src_files = [''sysv.S'', ''ffi.c''], hdr_files = [''internal.h'']\<rparr>"

definition ios_simulator64_platform :: platform where
  "ios_simulator64_platform =
     \<lparr>directory = ''darwin_ios'', sdk = ''iphonesimulator'', arch = ''x86_64'',
      triple = ''x86_64-apple-darwin13'', version_min = ''-miphoneos-version-min=8.0'',
      prefix = ''#ifdef __x86_64__'' @ newline @ newline, suffix = newline @ newline @ ''#endif'',
      src_dir = ''x86'', src_files = [''unix64.S'', ''ffi64.c'', ''ffiw64.c'', ''win64.S''],
      hdr_files = [''internal64.h'', ''asmnames.h'']\<rparr>"

definition ios_device_platform :: platform where
  "ios_device_platform =
     \<lparr>directory = ''darwin_ios'', sdk = ''iphoneos'', arch = ''armv7'',
      triple = ''arm-apple-darwin11'', version_min = ''-miphoneos-version-min=8.0'',
      prefix = ''#ifdef __arm__'' @ newline @ newline, suffix = newline @ newline @ ''#endif'',
      src_dir = ''arm'', src_files = [''sysv.S'', ''ffi.c''], hdr_files = [''internal.h'']\<rparr>"

definition ios_device64_platform :: platform where
  "ios_device64_platform =
     \<lparr>directory = ''darwin_ios'', sdk = ''iphoneos'', arch = ''arm64'',
      triple = ''aarch64-apple-darwin13'', version_min = ''-miphoneos-version-min=8.0'',
      prefix = ''#ifdef __arm64__'' @ newline @ newline, suffix = newline @ newline @ ''#endif'',
      src_dir = ''aarch64'', src_files = [''sysv.S'', ''ffi.c''], hdr_files = [''internal.h'']\<rparr>"

definition tvos_simulator64_platform :: platform where
  "tvos_simulator64_platform =
     \<lparr>directory = ''darwin_tvos'', sdk = ''appletvsimulator'', arch = ''x86_64'',
      triple = ''x86_64-apple-darwin13'', version_min = ''-mappletvos-version-min=9.0'',
      prefix = ''#ifdef __x86_64__'' @ newline @ newline, suffix = newline @ newline @ ''#endif'',
      src_dir = ''x86'', src_files = [''unix64.S'', ''ffi64.c''], hdr_files = [''internal64.h'']\<rparr>"

definition tvos_device64_platform :: platform where
  "tvos_device64_platform =
     \<lparr>directory = ''darwin_tvos'', sdk = ''appletvos'', arch = ''arm64'',
      triple = ''aarch64-apple-darwin13'', version_min = ''-mappletvos-version-min=9.0'',
      prefix = ''#ifdef __arm64__'' @ newline @ newline, suffix = newline @ newline @ ''#endif'',
      src_dir = ''aarch64'', src_files = [''sysv.S'', ''ffi.c''], hdr_files = [''internal.h'']\<rparr>"

definition desktop_amd64_platform :: platform where
  "desktop_amd64_platform =
     \<lparr>directory = ''darwin_osx'', sdk = ''macosx'', arch = ''x86_64'',
      triple = ''x86_64-apple-darwin10'', version_min = ''-mmacosx-version-min=10.6'',
      prefix = ''#ifdef __x86_64__'' @ newline @ newline, suffix = newline @ newline @ ''#endif'',
      src_dir = ''x86'', src_files = [''unix64.S'', ''ffi64.c'', ''ffiw64.c'', ''win64.S''],
      hdr_files = [''internal64.h'', ''asmnames.h'']\<rparr>"

definition desktop_arm64_platform :: platform where
  "desktop_arm64_platform =
     \<lparr>directory = ''darwin_osx'', sdk = ''macosx'', arch = ''arm64'',
      triple = ''aarch64-apple-darwin20'', version_min = ''-mmacosx-version-min=11.0'',
      prefix = ''#ifdef __arm64__'' @ newline @ newline, suffix = newline @ newline @ ''#endif'',
      src_dir = ''aarch64'', src_files = [''sysv.S'', ''ffi.c''], hdr_files = [''internal.h'']\<rparr>"

text \<open>The descriptor table: the eight classes the script declares, in their order.\<close>

definition platforms :: "platform list" where
  "platforms =
     [ios_simulator_platform, ios_simulator64_platform, ios_device_platform,
      ios_device64_platform, tvos_simulator64_platform, tvos_device64_platform,
      desktop_amd64_platform, desktop_arm64_platform]"

subsection \<open>File staging\<close>

text \<open>
  \<^verbatim>\<open>mkdir_p\<close>: \<^verbatim>\<open>os.makedirs\<close>, with the error \<^verbatim>\<open>EEXIST\<close> swallowed and every other
  error re-raised.
\<close>

definition mkdir_p :: "path \<Rightarrow> world \<Rightarrow> outcome \<times> world" where
  "mkdir_p p w =
     (case os_makedirs p w of
        (Raised (OSError e), w1) \<Rightarrow>
          if e \<noteq> EEXIST then (Raised (OSError e), w1) else (Ok, w1)
      | r \<Rightarrow> r)"

text \<open>Python's truth value of an optional string: \<^verbatim>\<open>None\<close> and \<^verbatim>\<open>''\<close> are false.\<close>

definition truthy :: "string option \<Rightarrow> bool" where
  "truthy s = (case s of None \<Rightarrow> False | Some x \<Rightarrow> x \<noteq> [])"

definition text_of :: "string option \<Rightarrow> string" where
  "text_of s = (if truthy s then the s else [])"

text \<open>The name under which \<^verbatim>\<open>move_file\<close> writes a file (its variable \<^verbatim>\<open>out_filename\<close>).\<close>

definition out_filename :: "string option \<Rightarrow> string \<Rightarrow> string" where
  "out_filename file_suffix filename =
     (if truthy file_suffix then
        if filename \<in> set [''internal64.h'', ''asmnames.h'', ''internal.h''] then filename
        else (let split_name = os_path_splitext filename
              in fst split_name @ ''_'' @ the file_suffix @ snd split_name)
      else filename)"

text \<open>
  The body of the two \<^verbatim>\<open>with\<close> blocks (lines 145 to 151), once both files are open: the
  output file gets the prefix, the text \<^verbatim>\<open>read()\<close> returns for what the input file holds
  at that moment, and the suffix. When \<^verbatim>\<open>read()\<close> raises, the prefix has been written and
  the output file is closed with it.
\<close>

definition write_wrapped ::
  "path \<Rightarrow> path \<Rightarrow> string option \<Rightarrow> string option \<Rightarrow> world \<Rightarrow> outcome \<times> world" where
  "write_wrapped in_path out_path pre suf w =
     (let bytes = (case read_file w in_path of None \<Rightarrow> [] | Some c \<Rightarrow> c)
      in case read_text bytes of
           None \<Rightarrow> (Raised UnicodeDecodeError, put_file out_path (text_of pre) w)
         | Some content \<Rightarrow>
             (Ok, put_file out_path (text_of pre @ content @ text_of suf) w))"

definition move_file ::
  "path \<Rightarrow> path \<Rightarrow> string \<Rightarrow> string option \<Rightarrow> string option \<Rightarrow> string option
     \<Rightarrow> world \<Rightarrow> outcome \<times> world" where
  "move_file src dst filename file_suffix pre suf =
     seq [mkdir_p dst,
          open_read (os_path_join src filename),
          open_write (os_path_join dst (out_filename file_suffix filename)),
          write_wrapped (os_path_join src filename)
            (os_path_join dst (out_filename file_suffix filename)) pre suf]"

text \<open>
  \<^verbatim>\<open>list_files\<close>: the base names of the files a pattern matches, or of an explicit list.
  The listing is taken before the first file is moved.
\<close>

definition list_files :: "path \<Rightarrow> string option \<Rightarrow> string list \<Rightarrow> world \<Rightarrow> string list" where
  "list_files src pattern filelist w =
     map os_path_basename
       (if truthy pattern then glob_iglob (os_path_join src (the pattern)) w else filelist)"

definition copy_files ::
  "path \<Rightarrow> path \<Rightarrow> string option \<Rightarrow> string list \<Rightarrow> string option \<Rightarrow> string option
     \<Rightarrow> string option \<Rightarrow> world \<Rightarrow> outcome \<times> world" where
  "copy_files src dst pattern filelist file_suffix pre suf w =
     seq (map (\<lambda>filename. move_file src dst filename file_suffix pre suf)
            (list_files src pattern filelist w)) w"

definition copy_src_platform_files :: "platform \<Rightarrow> world \<Rightarrow> outcome \<times> world" where
  "copy_src_platform_files p =
     (let src = os_path_join ''src'' (src_dir p);
          dst = os_path_join (os_path_join (directory p) ''src'') (src_dir p)
      in seq [copy_files src dst None (src_files p) (Some (arch p))
                (Some (prefix p)) (Some (suffix p)),
              copy_files src dst None (hdr_files p) None
                (Some (prefix p)) (Some (suffix p))])"

subsection \<open>The header registry\<close>

text \<open>
  \<^verbatim>\<open>platform_headers\<close> is a \<^verbatim>\<open>collections.defaultdict(set)\<close>: header name to a set of
  (prefix, arch, suffix) tuples. The dictionary is an association list and each set a
  list without repetition; Python leaves the order in which a set is enumerated open,
  the model enumerates the tuple added last first.
\<close>

type_synonym tag_tuple = "string \<times> string \<times> string"

type_synonym registry = "(string \<times> tag_tuple list) list"

text \<open>\<^verbatim>\<open>platform_headers[filename].add(t)\<close>\<close>

fun registry_add :: "string \<Rightarrow> tag_tuple \<Rightarrow> registry \<Rightarrow> registry" where
  "registry_add filename t [] = [(filename, [t])]"
| "registry_add filename t ((k, ts) # r) =
     (if k = filename then (k, List.insert t ts) # r else (k, ts) # registry_add filename t r)"

definition entries :: "registry \<Rightarrow> string \<Rightarrow> tag_tuple list" where
  "entries r filename = (case map_of r filename of None \<Rightarrow> [] | Some ts \<Rightarrow> ts)"

subsection \<open>Target builder\<close>

text \<open>A statement that touches the world only, run where the registry is in scope.\<close>

definition on_world ::
  "(world \<Rightarrow> outcome \<times> world) \<Rightarrow> registry \<times> world \<Rightarrow> outcome \<times> registry \<times> world" where
  "on_world f s = (case f (snd s) of (out, w') \<Rightarrow> (out, (fst s, w')))"

definition xcrun_cmd :: "platform \<Rightarrow> string \<Rightarrow> string" where
  "xcrun_cmd p c = ''xcrun -sdk '' @ sdk p @ '' '' @ c @ '' -arch '' @ arch p"

definition build_dir_of :: "platform \<Rightarrow> path" where
  "build_dir_of p = ''build_'' @ (sdk p @ ''-'' @ arch p)"

definition build_env :: "platform \<Rightarrow> (string \<times> string) list" where
  "build_env p =
     [(''CC'', xcrun_cmd p ''clang''),
      (''LD'', xcrun_cmd p ''ld''),
      (''CFLAGS'', version_min p @ '' -fembed-bitcode'')]"

text \<open>Lines 182 to 187: the configure run, inside the build directory.\<close>

definition run_configure :: "command \<Rightarrow> platform \<Rightarrow> world \<Rightarrow> outcome \<times> world" where
  "run_configure cmd p w =
     (let working_dir = os_getcwd w in
      try_finally
        (seq [os_chdir (build_dir_of p),
              check_call cmd [''../configure'', ''-host'', triple p] (build_env p)])
        (os_chdir working_dir) w)"

text \<open>Lines 196 and 197: every header found in a directory is recorded for the platform.\<close>

definition record_headers ::
  "platform \<Rightarrow> path \<Rightarrow> registry \<times> world \<Rightarrow> outcome \<times> registry \<times> world" where
  "record_headers p src s =
     (Ok, (fold (\<lambda>filename. registry_add filename (prefix p, arch p, suffix p))
             (list_files src (Some ''*.h'') [] (snd s)) (fst s),
           snd s))"

definition build_target ::
  "command \<Rightarrow> platform \<Rightarrow> registry \<times> world \<Rightarrow> outcome \<times> registry \<times> world" where
  "build_target cmd p =
     (let build_dir = build_dir_of p in
      seq ([on_world (mkdir_p build_dir),
            on_world (run_configure cmd p)] @
           concat (map (\<lambda>src.
               [on_world (copy_files src (os_path_join (directory p) ''include'')
                            (Some ''*.h'') [] (Some (arch p))
                            (Some (prefix p)) (Some (suffix p))),
                record_headers p src])
             [build_dir, os_path_join build_dir ''include''])))"

subsection \<open>Header unifier and driver\<close>

text \<open>One block of an umbrella header, as the format string of line 235 builds it.\<close>

definition include_block :: "string \<Rightarrow> tag_tuple \<Rightarrow> string" where
  "include_block header_name tag_tuple =
     (let basename = fst (os_path_splitext header_name);
          ext = snd (os_path_splitext header_name)
      in fst tag_tuple @ ''#include <'' @ basename @ ''_'' @ fst (snd tag_tuple) @ ext @ ''>''
         @ newline @ snd (snd tag_tuple) @ newline)"

definition write_umbrella :: "string \<times> tag_tuple list \<Rightarrow> world \<Rightarrow> outcome \<times> world" where
  "write_umbrella item =
     (let header_name = fst item; tag_tuples = snd item;
          out_path = os_path_join ''darwin_common/include'' header_name
      in seq [open_write out_path,
              (\<lambda>w. (Ok, put_file out_path
                           (concat (map (include_block header_name) tag_tuples)) w))])"

text \<open>Lines 230 to 235.\<close>

definition unify_headers :: "registry \<Rightarrow> world \<Rightarrow> outcome \<times> world" where
  "unify_headers platform_headers =
     seq (mkdir_p ''darwin_common/include'' # map write_umbrella platform_headers)"

text \<open>The descriptors each phase of the driver goes through, in the order of its calls.\<close>

definition selected :: "bool \<Rightarrow> bool \<Rightarrow> bool \<Rightarrow> platform list" where
  "selected generate_osx generate_ios generate_tvos =
     (if generate_ios
      then [ios_simulator64_platform, ios_device_platform, ios_device64_platform] else []) @
     (if generate_tvos then [tvos_simulator64_platform, tvos_device64_platform] else []) @
     (if generate_osx then [desktop_amd64_platform, desktop_arm64_platform] else [])"

text \<open>Lines 201 to 214.\<close>

definition stage_sources :: "bool \<Rightarrow> bool \<Rightarrow> bool \<Rightarrow> world \<Rightarrow> outcome \<times> world" where
  "stage_sources generate_osx generate_ios generate_tvos =
     seq ([copy_files ''src'' ''darwin_common/src'' (Some ''*.c'') [] None None None,
           copy_files ''include'' ''darwin_common/include'' (Some ''*.h'') [] None None None] @
          map copy_src_platform_files (selected generate_osx generate_ios generate_tvos))"

text \<open>Lines 216 to 228: the registry starts empty.\<close>

definition build_all ::
  "command \<Rightarrow> bool \<Rightarrow> bool \<Rightarrow> bool \<Rightarrow> world \<Rightarrow> outcome \<times> registry \<times> world" where
  "build_all cmd generate_osx generate_ios generate_tvos w =
     seq (map (build_target cmd) (selected generate_osx generate_ios generate_tvos)) ([], w)"

definition generate_source_and_headers ::
  "command \<Rightarrow> bool \<Rightarrow> bool \<Rightarrow> bool \<Rightarrow> world \<Rightarrow> outcome \<times> world" where
  "generate_source_and_headers cmd generate_osx generate_ios generate_tvos w =
     (case stage_sources generate_osx generate_ios generate_tvos w of
        (Raised e, w1) \<Rightarrow> (Raised e, w1)
      | (Ok, w1) \<Rightarrow>
          (case build_all cmd generate_osx generate_ios generate_tvos w1 of
             (Raised e, s2) \<Rightarrow> (Raised e, snd s2)
           | (Ok, s2) \<Rightarrow> unify_headers (fst s2) (snd s2)))"

text \<open>
  The command line, as \<^verbatim>\<open>argparse\<close> hands it over: three switches, each false unless its
  flag is given.
\<close>

record args =
  disable_ios :: bool
  disable_tvos :: bool
  disable_osx :: bool

definition main :: "command \<Rightarrow> args \<Rightarrow> world \<Rightarrow> outcome \<times> world" where
  "main cmd a =
     generate_source_and_headers cmd (\<not> disable_osx a) (\<not> disable_ios a) False"

section \<open>Notions used in the statements\<close>

text \<open>The tuple \<open>build_target\<close> records for a descriptor (line 197).\<close>

definition tag_of :: "platform \<Rightarrow> tag_tuple" where
  "tag_of p = (prefix p, arch p, suffix p)"

text \<open>Recording one tuple under each name of a list, as the loop of lines 196 and 197 does.\<close>

definition add_all :: "tag_tuple \<Rightarrow> string list \<Rightarrow> registry \<Rightarrow> registry" where
  "add_all t names r = fold (\<lambda>filename. registry_add filename t) names r"

text \<open>
  A check on a descriptor, used for the table: its staged files do not land on the files
  they are read from, its headers land on different paths, and its file names are plain
  names.
\<close>

definition staging_paths_apart :: "platform \<Rightarrow> bool" where
  "staging_paths_apart p =
     (let src = os_path_join ''src'' (src_dir p);
          dst = os_path_join (os_path_join (directory p) ''src'') (src_dir p)
      in list_all (\<lambda>y. list_all (\<lambda>x. os_path_join dst (out_filename (Some (arch p)) x)
                                        \<noteq> os_path_join src y) (src_files p)) (hdr_files p) \<and>
         list_all (\<lambda>y. list_all (\<lambda>x. os_path_join dst x \<noteq> os_path_join src y)
                         (hdr_files p)) (hdr_files p) \<and>
         distinct (map (os_path_join dst) (hdr_files p)) \<and>
         map os_path_basename (src_files p) = src_files p \<and>
         map os_path_basename (hdr_files p) = hdr_files p)"

subsection \<open>Example worlds and commands\<close>

text \<open>
  A configure command for the examples. The script runs in \<^verbatim>\<open>/work\<close>; the command
  leaves \<^verbatim>\<open>fficonfig.h\<close> in its build directory and \<^verbatim>\<open>ffi.h\<close> in the \<^verbatim>\<open>include\<close>
  directory below it, and exits with the given status.
\<close>

definition example_configure :: "int \<Rightarrow> command" where
  "example_configure status c argv env fs =
     (let b = drop (length ''/work/'') c in
      (status,
       ((b @ ''/fficonfig.h'', ''config'') # (b @ ''/include/ffi.h'', ''api'') #
          filter (\<lambda>kv. fst kv \<notin> {b @ ''/fficonfig.h'', b @ ''/include/ffi.h''}) (fst fs),
        (b @ ''/include'') # filter (\<lambda>d. d \<noteq> b @ ''/include'') (snd fs))))"

text \<open>A configure command that leaves \<^verbatim>\<open>foo.h\<close> in its build directory.\<close>

definition foo_configure :: command where
  "foo_configure c argv env fs =
     (let b = drop (length ''/work/'') c in
      (0, ((b @ ''/foo.h'', ''foo'') # filter (\<lambda>kv. fst kv \<noteq> b @ ''/foo.h'') (fst fs),
           snd fs)))"

text \<open>A world that holds the sources of the arm64 descriptors.\<close>

definition arm64_sources :: world where
  "arm64_sources =
     \<lparr>files = [(''src/aarch64/sysv.S'', ''asm''), (''src/aarch64/ffi.c'', ''code''),
               (''src/aarch64/internal.h'', ''decls'')],
      dirs = [''src'', ''src/aarch64''], cwd = ''work'', events = []\<rparr>"

text \<open>The same sources, with a header that has a line ending CR LF, and with a header that
  holds the byte E9 (a Latin-1 letter) on its own.\<close>

definition crlf_sources :: world where
  "crlf_sources =
     \<lparr>files = [(''src/aarch64/sysv.S'', ''asm''), (''src/aarch64/ffi.c'', ''code''),
               (''src/aarch64/internal.h'', ''int a;'' @ [CHR 0x0D, CHR 0x0A] @ ''int b;'')],
      dirs = [''src'', ''src/aarch64''], cwd = ''work'', events = []\<rparr>"

definition latin1_sources :: world where
  "latin1_sources =
     \<lparr>files = [(''src/aarch64/sysv.S'', ''asm''), (''src/aarch64/ffi.c'', ''code''),
               (''src/aarch64/internal.h'', ''caf'' @ [CHR 0xE9])],
      dirs = [''src'', ''src/aarch64''], cwd = ''work'', events = []\<rparr>"

definition empty_world :: world where
  "empty_world = \<lparr>files = [], dirs = [], cwd = ''work'', events = []\<rparr>"

subsection \<open>Calls of a run\<close>

text \<open>A path that starts at the root.\<close>

definition absolute :: "path \<Rightarrow> bool" where
  "absolute p = (p \<noteq> [] \<and> hd p = CHR ''/'')"

text \<open>\<open>within d q\<close>: the path \<open>q\<close> is the directory \<open>d\<close> or lies below it.\<close>

definition within :: "path \<Rightarrow> path \<Rightarrow> bool" where
  "within d q = (take (length d) q = d \<and> (length q = length d \<or> q ! length d = CHR ''/''))"

text \<open>The calls issued between two worlds of a run.\<close>

definition new_events :: "world \<Rightarrow> world \<Rightarrow> event list" where
  "new_events w w' = take (length (events w') - length (events w)) (events w')"

text \<open>A statement issues only calls of a given kind, whatever its outcome.\<close>

definition emits :: "('s \<Rightarrow> world) \<Rightarrow> (event \<Rightarrow> bool) \<Rightarrow> ('s \<Rightarrow> outcome \<times> 's) \<Rightarrow> bool" where
  "emits g P f = (\<forall>s. \<exists>es. events (g (snd (f s))) = es @ events (g s) \<and> list_all P es)"

text \<open>The calls of \<open>copy_files\<close> for given directories and file suffix: create the
  destination, read a file of the source directory, write its staged name.\<close>

definition staging_event ::
  "(string \<Rightarrow> bool) \<Rightarrow> path \<Rightarrow> path \<Rightarrow> string option \<Rightarrow> event \<Rightarrow> bool" where
  "staging_event N src dst file_suffix e =
     (e = Makedirs dst \<or>
      (\<exists>n. N n \<and> CHR ''/'' \<notin> set n \<and>
           (e = Open_read (os_path_join src n) \<or>
            e = Open_write (os_path_join dst (out_filename file_suffix n)))))"

text \<open>The directories of a descriptor: sources, staged sources, staged headers.\<close>

definition platform_src :: "platform \<Rightarrow> path" where
  "platform_src p = os_path_join ''src'' (src_dir p)"

definition platform_dst :: "platform \<Rightarrow> path" where
  "platform_dst p = os_path_join (os_path_join (directory p) ''src'') (src_dir p)"

definition platform_include :: "platform \<Rightarrow> path" where
  "platform_include p = os_path_join (directory p) ''include''"

text \<open>The calls the script can issue while it stages and builds one descriptor.\<close>

definition platform_event :: "platform \<Rightarrow> event \<Rightarrow> bool" where
  "platform_event p e =
     (staging_event (\<lambda>n. n \<in> set (map os_path_basename (src_files p)))
        (platform_src p) (platform_dst p) (Some (arch p)) e \<or>
      staging_event (\<lambda>n. n \<in> set (map os_path_basename (hdr_files p)))
        (platform_src p) (platform_dst p) None e \<or>
      e = Makedirs (build_dir_of p) \<or> e = Chdir (build_dir_of p) \<or>
      (\<exists>c. e = Chdir (CHR ''/'' # c)) \<or>
      (\<exists>c status. e = Check_call c [''../configure'', ''-host'', triple p] (build_env p) status) \<or>
      staging_event (\<lambda>n. True) (build_dir_of p) (platform_include p) (Some (arch p)) e \<or>
      staging_event (\<lambda>n. True) (os_path_join (build_dir_of p) ''include'')
        (platform_include p) (Some (arch p)) e)"

text \<open>The calls of the common staging (lines 201 and 202) and of the header unifier.\<close>

definition common_event :: "event \<Rightarrow> bool" where
  "common_event e =
     (staging_event (\<lambda>n. True) ''src'' ''darwin_common/src'' None e \<or>
      staging_event (\<lambda>n. True) ''include'' ''darwin_common/include'' None e \<or>
      (\<exists>n. CHR ''/'' \<notin> set n \<and> e = Open_write (os_path_join ''darwin_common/include'' n)))"

text \<open>The calls of a run over a list of descriptors.\<close>

definition run_event :: "platform list \<Rightarrow> event \<Rightarrow> bool" where
  "run_event ps e = (common_event e \<or> (\<exists>p\<in>set ps. platform_event p e))"

text \<open>The names of a registry are plain names.\<close>

definition keys_slashless :: "registry \<Rightarrow> bool" where
  "keys_slashless r = (\<forall>k\<in>fst ` set r. CHR ''/'' \<notin> set k)"

text \<open>A configure run that exits with a non-zero status.\<close>

definition failed :: "event \<Rightarrow> bool" where
  "failed e = (case e of Check_call c argv env status \<Rightarrow> status \<noteq> 0 | _ \<Rightarrow> False)"

text \<open>The calls of a run are orderly: no configure run has failed, or one has, the only call
  after it is the return to the start directory, and its status is the outcome of the run.\<close>

definition orderly :: "path \<Rightarrow> outcome \<Rightarrow> event list \<Rightarrow> bool" where
  "orderly c out es =
     (list_all (\<lambda>e. \<not> failed e) es \<or>
      (\<exists>c' argv env status rest.
         es = Chdir c # Check_call c' argv env status # rest \<and> status \<noteq> 0 \<and>
         list_all (\<lambda>e. \<not> failed e) rest \<and> out = Raised (CalledProcessError status)))"

text \<open>A statement keeps the working directory and issues an orderly list of calls.\<close>

definition steady :: "('s \<Rightarrow> world) \<Rightarrow> path \<Rightarrow> ('s \<Rightarrow> outcome \<times> 's) \<Rightarrow> bool" where
  "steady g c f =
     (\<forall>s. cwd (g s) = c \<longrightarrow>
        cwd (g (snd (f s))) = c \<and>
        (\<exists>es. events (g (snd (f s))) = es @ events (g s) \<and>
              orderly (CHR ''/'' # c) (fst (f s)) es))"

text \<open>A world that holds the sources of every descriptor and two common files.\<close>

definition all_sources :: world where
  "all_sources =
     \<lparr>files =
        [(''src/prep_cif.c'', ''prep''), (''include/ffi_common.h'', ''common''),
         (''src/x86/unix64.S'', ''u''), (''src/x86/ffi64.c'', ''f''),
         (''src/x86/ffiw64.c'', ''fw''), (''src/x86/win64.S'', ''w''),
         (''src/x86/internal64.h'', ''i64''), (''src/x86/asmnames.h'', ''an''),
         (''src/arm/sysv.S'', ''s7''), (''src/arm/ffi.c'', ''f7''),
         (''src/arm/internal.h'', ''i7''),
         (''src/aarch64/sysv.S'', ''s8''), (''src/aarch64/ffi.c'', ''f8''),
         (''src/aarch64/internal.h'', ''i8'')],
      dirs = [''src'', ''include'', ''src/x86'', ''src/arm'', ''src/aarch64''],
      cwd = ''work'', events = []\<rparr>"

text \<open>The renaming rule in words of the specification: \<open>_\<close> and the architecture go between
  stem and extension, except for the three header names that are never suffixed.\<close>

definition suffixed_name :: "string \<Rightarrow> string \<Rightarrow> string" where
  "suffixed_name architecture filename =
     (if filename \<in> set [''internal.h'', ''internal64.h'', ''asmnames.h''] then filename
      else fst (os_path_splitext filename) @ ''_'' @ architecture
             @ snd (os_path_splitext filename))"

text \<open>A check on a descriptor, used for the table: it has an architecture, and its header
  files are among the three names that are never suffixed.\<close>

definition names_sound :: "platform \<Rightarrow> bool" where
  "names_sound p =
     (arch p \<noteq> [] \<and>
      list_all (\<lambda>h. os_path_basename h \<in> set [''internal.h'', ''internal64.h'', ''asmnames.h''])
        (hdr_files p))"

subsection \<open>Families of descriptors\<close>

text \<open>
  The three families the driver switches on and off. A descriptor belongs to the family
  whose output directory it names.
\<close>

datatype family = Ios | Tvos | Osx

definition family_directory :: "family \<Rightarrow> string" where
  "family_directory fam =
     (case fam of Ios \<Rightarrow> ''darwin_ios'' | Tvos \<Rightarrow> ''darwin_tvos'' | Osx \<Rightarrow> ''darwin_osx'')"

definition family_platforms :: "family \<Rightarrow> platform list" where
  "family_platforms fam = filter (\<lambda>p. directory p = family_directory fam) platforms"

text \<open>Which family each flag of \<open>generate_source_and_headers\<close> stands for.\<close>

definition generated :: "bool \<Rightarrow> bool \<Rightarrow> bool \<Rightarrow> family \<Rightarrow> bool" where
  "generated generate_osx generate_ios generate_tvos fam =
     (case fam of Ios \<Rightarrow> generate_ios | Tvos \<Rightarrow> generate_tvos | Osx \<Rightarrow> generate_osx)"

text \<open>A call touches a descriptor when it creates or writes something in the output
  directory of the descriptor, creates, enters or reads its build directory, or runs a
  command in its build environment.\<close>

definition touches :: "platform \<Rightarrow> event \<Rightarrow> bool" where
  "touches p e =
     (case e of
        Makedirs q \<Rightarrow> within (directory p) q \<or> q = build_dir_of p
      | Open_read q \<Rightarrow> within (build_dir_of p) q
      | Open_write q \<Rightarrow> within (directory p) q
      | Chdir q \<Rightarrow> q = build_dir_of p
      | Check_call c argv env status \<Rightarrow> env = build_env p)"

text \<open>The source files a descriptor is staged from, and the paths they are staged to.\<close>

definition source_reads :: "platform \<Rightarrow> path list" where
  "source_reads p =
     map (os_path_join (platform_src p)) (map os_path_basename (src_files p @ hdr_files p))"

definition staged_sources :: "platform \<Rightarrow> path list" where
  "staged_sources p =
     map (\<lambda>n. os_path_join (platform_dst p) (out_filename (Some (arch p)) (os_path_basename n)))
       (src_files p) @
     map (\<lambda>n. os_path_join (platform_dst p) (os_path_basename n)) (hdr_files p)"

text \<open>The calls of one descriptor, by kind of call.\<close>

definition footprint :: "platform \<Rightarrow> event \<Rightarrow> bool" where
  "footprint p e =
     (case e of
        Makedirs q \<Rightarrow> q \<in> set [platform_dst p, platform_include p, build_dir_of p]
      | Open_read q \<Rightarrow> q \<in> set (source_reads p) \<or> within (build_dir_of p) q
      | Open_write q \<Rightarrow> q \<in> set (staged_sources p) \<or> within (platform_include p) q
      | Chdir q \<Rightarrow> q = build_dir_of p \<or> absolute q
      | Check_call c argv env status \<Rightarrow> env = build_env p)"

text \<open>Checks on descriptors, used for the table: the directories of a descriptor are proper
  names, and the calls of one descriptor touch no descriptor of another family, nor do
  the calls of the common staging.\<close>

definition tidy :: "platform \<Rightarrow> bool" where
  "tidy p =
     (last (build_dir_of p) \<noteq> CHR ''/'' \<and> platform_include p \<noteq> [] \<and>
      last (platform_include p) \<noteq> CHR ''/'')"

definition apart :: "platform \<Rightarrow> platform \<Rightarrow> bool" where
  "apart p p' =
     (list_all (\<lambda>e. \<not> touches p e)
        ([Makedirs (platform_dst p'), Makedirs (platform_include p'), Makedirs (build_dir_of p'),
          Chdir (build_dir_of p')] @
         map Open_read (source_reads p') @ map Open_write (staged_sources p')) \<and>
      \<not> within (build_dir_of p') (build_dir_of p) \<and> \<not> within (build_dir_of p) (build_dir_of p') \<and>
      \<not> within (platform_include p') (directory p) \<and>
      \<not> within (directory p) (platform_include p') \<and>
      \<not> absolute (build_dir_of p) \<and> build_env p' \<noteq> build_env p)"

definition apart_from_common :: "platform \<Rightarrow> bool" where
  "apart_from_common p =
     (\<not> touches p (Makedirs ''darwin_common/src'') \<and>
      \<not> touches p (Makedirs ''darwin_common/include'') \<and>
      \<not> within ''src'' (build_dir_of p) \<and> \<not> within (build_dir_of p) ''src'' \<and>
      \<not> within ''include'' (build_dir_of p) \<and> \<not> within (build_dir_of p) ''include'' \<and>
      \<not> within ''darwin_common'' (directory p) \<and> \<not> within (directory p) ''darwin_common'')"

text \<open>The calls that only the processing of one descriptor issues: making and entering its
  build directory, running a command in its build environment, reading its source
  files or a file of its build directory, writing its staged sources.\<close>

definition own_call :: "platform \<Rightarrow> event \<Rightarrow> bool" where
  "own_call p e =
     (case e of
        Makedirs q \<Rightarrow> q = build_dir_of p
      | Open_read q \<Rightarrow> q \<in> set (source_reads p) \<or> within (build_dir_of p) q
      | Open_write q \<Rightarrow> q \<in> set (staged_sources p)
      | Chdir q \<Rightarrow> q = build_dir_of p
      | Check_call c argv env status \<Rightarrow> env = build_env p)"

text \<open>\<open>direct d x\<close>: the path \<open>x\<close> names an entry of the directory \<open>d\<close> itself.\<close>

definition direct :: "path \<Rightarrow> path \<Rightarrow> bool" where
  "direct d x = (take (length d + 1) x = d @ ''/'' \<and> CHR ''/'' \<notin> set (drop (length d + 1) x))"

text \<open>Checks used for the table: the calls of one descriptor, and those of the common staging,
  are none of the own calls of another.\<close>

definition calls_distinct :: "platform \<Rightarrow> platform \<Rightarrow> bool" where
  "calls_distinct p p' =
     (build_dir_of p \<notin> set [platform_dst p', platform_include p', build_dir_of p'] \<and>
      \<not> absolute (build_dir_of p) \<and> build_env p' \<noteq> build_env p \<and>
      list_all (\<lambda>x. x \<notin> set (source_reads p') \<and> \<not> within (build_dir_of p') x)
        (source_reads p) \<and>
      list_all (\<lambda>y. \<not> within (build_dir_of p) y) (source_reads p') \<and>
      \<not> within (build_dir_of p) (build_dir_of p') \<and>
      \<not> within (build_dir_of p') (build_dir_of p) \<and>
      list_all (\<lambda>x. x \<notin> set (staged_sources p') \<and> \<not> within (platform_include p') x)
        (staged_sources p))"

definition calls_distinct_from_common :: "platform \<Rightarrow> bool" where
  "calls_distinct_from_common p =
     (build_dir_of p \<notin> set [''darwin_common/src'', ''darwin_common/include''] \<and>
      list_all (\<lambda>x. \<not> direct ''src'' x \<and> \<not> direct ''include'' x) (source_reads p) \<and>
      \<not> within ''src'' (build_dir_of p) \<and> \<not> within (build_dir_of p) ''src'' \<and>
      \<not> within ''include'' (build_dir_of p) \<and> \<not> within (build_dir_of p) ''include'' \<and>
      list_all (\<lambda>x. \<not> within ''darwin_common'' x) (staged_sources p))"

subsection \<open>Copies of a run\<close>

text \<open>
  \<open>move_file\<close> opens the file it copies and then the file it writes (lines 143 and 144);
  the header unifier only opens the file it writes. So the calls of a run tell which file
  each written file is a copy of: the file opened for reading just before it.
  \<open>source_of es\<close> is the file opened for reading by the newest call of \<open>es\<close>, if that call
  opens one, and \<open>writes es\<close> lists the files opened for writing in \<open>es\<close> (newest first),
  each with the file it is a copy of.
\<close>

definition source_of :: "event list \<Rightarrow> path option" where
  "source_of es = (case es of Open_read r # rest \<Rightarrow> Some r | _ \<Rightarrow> None)"

primrec writes :: "event list \<Rightarrow> (path option \<times> path) list" where
  "writes [] = []"
| "writes (e # es) =
     (case e of Open_write q \<Rightarrow> [(source_of es, q)] | _ \<Rightarrow> []) @ writes es"

text \<open>
  The renaming rule for a run over the descriptors \<open>ps\<close>, as a relation between the file
  read and the file written. A common file keeps its name; a source or header file of a
  descriptor, and a header of its build directory, gets the suffixed name; a file written
  without a file read before it is an umbrella header.
\<close>

definition staged_as :: "platform list \<Rightarrow> path option \<times> path \<Rightarrow> bool" where
  "staged_as ps x =
     ((\<exists>n. CHR ''/'' \<notin> set n \<and>
           (x = (Some (os_path_join ''src'' n), os_path_join ''darwin_common/src'' n) \<or>
            x = (Some (os_path_join ''include'' n), os_path_join ''darwin_common/include'' n))) \<or>
      (\<exists>p\<in>set ps. \<exists>n. CHR ''/'' \<notin> set n \<and>
           ((n \<in> set (src_files p) \<union> set (hdr_files p) \<and>
             x = (Some (os_path_join (platform_src p) n),
                  os_path_join (platform_dst p) (suffixed_name (arch p) n))) \<or>
            x = (Some (os_path_join (build_dir_of p) n),
                 os_path_join (platform_include p) (suffixed_name (arch p) n)) \<or>
            x = (Some (os_path_join (os_path_join (build_dir_of p) ''include'') n),
                 os_path_join (platform_include p) (suffixed_name (arch p) n)))) \<or>
      (\<exists>n. CHR ''/'' \<notin> set n \<and> x = (None, os_path_join ''darwin_common/include'' n)))"

text \<open>A statement writes only files that satisfy \<open>Q\<close>, with the files they are copies of,
  and does not end well on a file opened for reading.\<close>

definition copying ::
  "('s \<Rightarrow> world) \<Rightarrow> (path option \<times> path \<Rightarrow> bool) \<Rightarrow> ('s \<Rightarrow> outcome \<times> 's) \<Rightarrow> bool" where
  "copying g Q f =
     (\<forall>s. \<exists>es. events (g (snd (f s))) = es @ events (g s) \<and> list_all Q (writes es) \<and>
               (fst (f s) = Ok \<longrightarrow> source_of es = None))"

text \<open>The copies of \<open>copy_files\<close> for given directories and file suffix.\<close>

definition staging_copy ::
  "(string \<Rightarrow> bool) \<Rightarrow> path \<Rightarrow> path \<Rightarrow> string option \<Rightarrow> path option \<times> path \<Rightarrow> bool" where
  "staging_copy N src dst file_suffix x =
     (\<exists>n. N n \<and> CHR ''/'' \<notin> set n \<and>
          x = (Some (os_path_join src n), os_path_join dst (out_filename file_suffix n)))"

section \<open>Basic facts about the world and the system calls\<close>

lemma files_log_event [simp]: "files (log_event e w) = files w"
  and dirs_log_event [simp]: "dirs (log_event e w) = dirs w"
  and cwd_log_event [simp]: "cwd (log_event e w) = cwd w"
  and events_log_event [simp]: "events (log_event e w) = e # events w"
  by (simp_all add: log_event_def)

lemma read_file_log_event [simp]: "read_file (log_event e w) = read_file w"
  by (rule ext) (simp add: read_file_def)

lemma read_file_put_file [simp]: "read_file (put_file p c w) = (read_file w)(p \<mapsto> c)"
proof (rule ext)
  fix q
  have "map_of (filter (\<lambda>kv. fst kv \<noteq> p) xs) q = (if q = p then None else map_of xs q)"
    for xs :: "(path \<times> string) list"
    by (induction xs) auto
  then show "read_file (put_file p c w) q = ((read_file w)(p \<mapsto> c)) q"
    by (simp add: read_file_def put_file_def)
qed

lemma put_file_fields [simp]:
  "dirs (put_file p c w) = dirs w"
  "cwd (put_file p c w) = cwd w"
  "events (put_file p c w) = events w"
  by (simp_all add: put_file_def)

text \<open>What every statement of a sequence leaves alone, the sequence leaves alone.\<close>

lemma seq_proj:
  assumes "\<And>f s. f \<in> set fs \<Longrightarrow> g (snd (f s)) = g s"
  shows "g (snd (seq fs s)) = g s"
  using assms
proof (induction fs arbitrary: s)
  case Nil
  then show ?case by simp
next
  case (Cons f fs)
  obtain out s1 where f: "f s = (out, s1)" by (cases "f s")
  have g1: "g s1 = g s" using Cons.prems [of f s] f by simp
  show ?case
  proof (cases out)
    case Ok
    have "g (snd (seq fs s1)) = g s1" using Cons.IH Cons.prems by simp
    with Ok f g1 show ?thesis by simp
  next
    case (Raised e)
    with f g1 show ?thesis by simp
  qed
qed

lemma snd_mkdir_p: "snd (mkdir_p p w) = snd (os_makedirs p w)"
  by (simp add: mkdir_p_def split: prod.splits outcome.splits error.splits)

lemma seq_Cons_Ok:
  "seq (f # fs) s = (Ok, s') \<longleftrightarrow> (\<exists>s1. f s = (Ok, s1) \<and> seq fs s1 = (Ok, s'))"
  by (cases "f s") (auto split: outcome.splits)

lemma text_of_Some [simp]: "text_of (Some x) = x"
  by (simp add: text_of_def truthy_def)

lemma text_of_None [simp]: "text_of None = []"
  by (simp add: text_of_def truthy_def)

lemma read_file_mkdir_p [simp]: "read_file (snd (mkdir_p p w)) = read_file w"
  by (rule ext) (simp add: read_file_def snd_mkdir_p os_makedirs_def Let_def)

lemma open_write_Ok:
  "open_write p w = (Ok, w') \<Longrightarrow> w' = put_file p [] (log_event (Open_write p) w)"
  by (auto simp: open_write_def Let_def split: if_splits)

lemma open_read_Ok:
  "open_read p w = (Ok, w') \<Longrightarrow> w' = log_event (Open_read p) w \<and> is_file w p"
  by (auto simp: open_read_def Let_def split: if_splits)

section \<open>Directory creation\<close>

lemma os_makedirs_files: "files (snd (os_makedirs p w)) = files w"
  by (simp add: os_makedirs_def Let_def)

lemma os_makedirs_dirs: "set (dirs w) \<subseteq> set (dirs (snd (os_makedirs p w)))"
  by (auto simp add: os_makedirs_def Let_def)

lemma mkdir_p_existing: "is_dir w p \<Longrightarrow> mkdir_p p w = (Ok, log_event (Makedirs p) w)"
  by (simp add: mkdir_p_def os_makedirs_def Let_def)

lemma mkdir_p_again: "fst (mkdir_p p w) = Ok \<Longrightarrow> fst (mkdir_p p (snd (mkdir_p p w))) = Ok"
  by (auto simp add: mkdir_p_def os_makedirs_def Let_def is_dir_def is_file_def
      split: if_splits)

lemma mkdir_p_reraise:
  "fst (os_makedirs p w) = Raised (OSError e) \<Longrightarrow> e \<noteq> EEXIST \<Longrightarrow> mkdir_p p w = os_makedirs p w"
  by (cases "os_makedirs p w") (simp add: mkdir_p_def)

lemma move_file_mkdir_fail:
  "fst (mkdir_p dst w) = Raised err \<Longrightarrow> move_file src dst f fs pre suf w = mkdir_p dst w"
  by (cases "mkdir_p dst w") (simp add: move_file_def)

text \<open>
  Claim C9. Creating the destination directory is idempotent: \<open>mkdir_p\<close> on a directory
  that exists succeeds, and succeeds again after it has succeeded once; it never touches
  a file and never removes a directory. Every error of \<open>os.makedirs\<close> other than
  \<open>EEXIST\<close> comes out of \<open>mkdir_p\<close> unchanged, and an error of \<open>mkdir_p\<close> ends \<open>move_file\<close>
  at once with that error.
\<close>

theorem mkdir_p_idempotent:
  "(is_dir w p \<longrightarrow> fst (mkdir_p p w) = Ok) \<and>
   (fst (mkdir_p p w) = Ok \<longrightarrow> fst (mkdir_p p (snd (mkdir_p p w))) = Ok) \<and>
   files (snd (mkdir_p p w)) = files w \<and>
   set (dirs w) \<subseteq> set (dirs (snd (mkdir_p p w))) \<and>
   (\<forall>e. fst (os_makedirs p w) = Raised (OSError e) \<and> e \<noteq> EEXIST
      \<longrightarrow> mkdir_p p w = os_makedirs p w) \<and>
   (\<forall>err. fst (mkdir_p p w) = Raised err
      \<longrightarrow> move_file src p filename file_suffix pre suf w = mkdir_p p w)"
  using mkdir_p_existing [of w p] mkdir_p_again [of p w] os_makedirs_files [of p w]
    os_makedirs_dirs [of w p] mkdir_p_reraise [of p w] move_file_mkdir_fail [of p w]
  by (simp add: snd_mkdir_p)

theorem mkdir_p_idempotent_witness:
  "fst (mkdir_p ''darwin_osx''
     \<lparr>files = [(''darwin_osx/old.h'', ''kept'')], dirs = [''darwin_osx''],
      cwd = ''work'', events = []\<rparr>) = Ok \<and>
   files (snd (mkdir_p ''darwin_osx''
     \<lparr>files = [(''darwin_osx/old.h'', ''kept'')], dirs = [''darwin_osx''],
      cwd = ''work'', events = []\<rparr>)) = [(''darwin_osx/old.h'', ''kept'')] \<and>
   fst (mkdir_p ''darwin_osx/src''
     \<lparr>files = [(''darwin_osx'', ''a file'')], dirs = [], cwd = ''work'', events = []\<rparr>)
     = Raised (OSError ENOTDIR) \<and>
   fst (move_file ''src'' ''darwin_osx/src'' ''ffi.c'' None None None
     \<lparr>files = [(''darwin_osx'', ''a file'')], dirs = [], cwd = ''work'', events = []\<rparr>)
     = Raised (OSError ENOTDIR)"
proof -
  let ?w1 = "\<lparr>files = [(''darwin_osx/old.h'', ''kept'')], dirs = [''darwin_osx''],
      cwd = ''work'', events = []\<rparr>"
  let ?w2 = "\<lparr>files = [(''darwin_osx'', ''a file'')], dirs = [], cwd = ''work'', events = []\<rparr>"
  have d: "is_dir ?w1 ''darwin_osx''" by (simp add: is_dir_def)
  have e: "fst (os_makedirs ''darwin_osx/src'' ?w2) = Raised (OSError ENOTDIR)"
    by (simp add: os_makedirs_def Let_def is_dir_def is_file_def read_file_def ancestors_def)
  have m: "fst (mkdir_p ''darwin_osx/src'' ?w2) = Raised (OSError ENOTDIR)"
    using mkdir_p_idempotent [of ?w2 "''darwin_osx/src''"] e by simp
  from mkdir_p_idempotent [of ?w1 "''darwin_osx''"] d
    mkdir_p_idempotent [of ?w2 "''darwin_osx/src''" "''src''" "''ffi.c''" None None None] m
  show ?thesis by simp
qed

section \<open>The working directory\<close>

lemma cwd_os_makedirs: "cwd (snd (os_makedirs p w)) = cwd w"
  by (simp add: os_makedirs_def Let_def)

lemma cwd_mkdir_p: "cwd (snd (mkdir_p p w)) = cwd w"
  by (simp add: snd_mkdir_p cwd_os_makedirs)

lemma cwd_open_read: "cwd (snd (open_read p w)) = cwd w"
  by (simp add: open_read_def Let_def)

lemma cwd_open_write: "cwd (snd (open_write p w)) = cwd w"
  by (simp add: open_write_def Let_def)

lemma cwd_write_wrapped: "cwd (snd (write_wrapped a b pre suf w)) = cwd w"
  by (simp add: write_wrapped_def Let_def split: option.splits)

lemma cwd_move_file: "cwd (snd (move_file src dst f fs pre suf w)) = cwd w"
  unfolding move_file_def
  by (rule seq_proj) (auto simp: cwd_mkdir_p cwd_open_read cwd_open_write cwd_write_wrapped)

lemma cwd_copy_files: "cwd (snd (copy_files src dst pat fl fs pre suf w)) = cwd w"
  unfolding copy_files_def
  by (rule seq_proj) (auto simp: cwd_move_file)

lemma cwd_check_call: "cwd (snd (check_call cmd argv env w)) = cwd w"
  by (simp add: check_call_def Let_def split: prod.splits)

text \<open>Going back to a directory that \<open>os_getcwd\<close> returned always succeeds.\<close>

lemma os_chdir_back:
  "os_chdir (os_getcwd w0) w = (Ok, (log_event (Chdir (os_getcwd w0)) w)\<lparr>cwd := cwd w0\<rparr>)"
  by (simp add: os_chdir_def os_getcwd_def Let_def)

lemma cwd_run_configure: "cwd (snd (run_configure cmd p w)) = cwd w"
  by (simp add: run_configure_def try_finally_def Let_def os_chdir_back
      split: prod.splits outcome.splits)

lemma cwd_on_world:
  "(\<And>w. cwd (snd (f w)) = cwd w) \<Longrightarrow> cwd (snd (snd (on_world f s))) = cwd (snd s)"
  by (simp add: on_world_def split: prod.splits) (metis snd_conv)

lemma cwd_build_target: "cwd (snd (snd (build_target cmd p s))) = cwd (snd s)"
  unfolding build_target_def Let_def
  by (rule seq_proj [where g = "\<lambda>s. cwd (snd s)"])
     (auto simp: cwd_on_world cwd_mkdir_p cwd_run_configure cwd_copy_files record_headers_def)

text \<open>
  Claim C7. Whatever \<open>build_target\<close> does and however it ends (also when the configure
  command fails and the exception leaves the function), the working directory of the
  process after the call is the one before the call.
\<close>

theorem build_target_restores_cwd:
  "cwd (snd (snd (build_target cmd p (platform_headers, w)))) = cwd w \<and>
   os_getcwd (snd (snd (build_target cmd p (platform_headers, w)))) = os_getcwd w"
  using cwd_build_target [of cmd p "(platform_headers, w)"] by (simp add: os_getcwd_def)

section \<open>Paths\<close>

lemma rfind_from_cases:
  "(rfind_from c xs i r = r \<and> c \<notin> set xs) \<or>
   (i \<le> rfind_from c xs i r \<and> rfind_from c xs i r < i + int (length xs) \<and>
    c \<notin> set (drop (nat (rfind_from c xs i r - i + 1)) xs))"
proof (induction xs arbitrary: i r)
  case Nil
  then show ?case by simp
next
  case (Cons x xs)
  let ?r0 = "if x = c then i else r"
  let ?res = "rfind_from c xs (i + 1) ?r0"
  from Cons.IH [of "i + 1" ?r0] consider
    (a) "?res = ?r0" "c \<notin> set xs" |
    (b) "i + 1 \<le> ?res" "?res < i + 1 + int (length xs)"
        "c \<notin> set (drop (nat (?res - (i + 1) + 1)) xs)"
    by blast
  then show ?case
  proof cases
    case a
    then show ?thesis by (cases "x = c") auto
  next
    case b
    have "nat (?res - i + 1) = Suc (nat (?res - (i + 1) + 1))" using b(1) by simp
    then have "drop (nat (?res - i + 1)) (x # xs) = drop (nat (?res - (i + 1) + 1)) xs"
      by simp
    with b show ?thesis by simp
  qed
qed

lemma basename_slashless: "CHR ''/'' \<notin> set (os_path_basename p)"
  using rfind_from_cases [of "CHR ''/''" p 0 "- 1"]
  by (auto simp: os_path_basename_def rfind_def)

lemma list_files_slashless: "n \<in> set (list_files src pat fl w) \<Longrightarrow> CHR ''/'' \<notin> set n"
  by (auto simp: list_files_def basename_slashless)

lemma within_iff: "within d q \<longleftrightarrow> (\<exists>r. q = d @ r \<and> (r = [] \<or> hd r = CHR ''/''))"
proof
  assume u: "within d q"
  then have "q = d @ drop (length d) q" by (metis append_take_drop_id within_def)
  moreover have "drop (length d) q = [] \<or> hd (drop (length d) q) = CHR ''/''"
  proof (cases "length q = length d")
    case True
    then show ?thesis by simp
  next
    case False
    with u have "q ! length d = CHR ''/''" by (simp add: within_def)
    moreover from u False have "length d < length q"
      by (metis within_def length_take min.cobounded1 le_neq_implies_less min_def)
    ultimately show ?thesis by (simp add: hd_drop_conv_nth)
  qed
  ultimately show "\<exists>r. q = d @ r \<and> (r = [] \<or> hd r = CHR ''/'')" by blast
next
  assume "\<exists>r. q = d @ r \<and> (r = [] \<or> hd r = CHR ''/'')"
  then obtain r where "q = d @ r" "r = [] \<or> hd r = CHR ''/''" by blast
  then show "within d q" by (cases r) (auto simp: within_def nth_append)
qed

lemma join_relative:
  "\<not> absolute b \<Longrightarrow> a \<noteq> [] \<Longrightarrow> last a \<noteq> CHR ''/'' \<Longrightarrow> os_path_join a b = a @ CHR ''/'' # b"
  by (auto simp: os_path_join_def absolute_def)

lemma within_join:
  assumes "within d a" "d \<noteq> []" "last d \<noteq> CHR ''/''" "\<not> absolute b"
  shows "within d (os_path_join a b)"
proof -
  from assms(1) obtain r where r: "a = d @ r" "r = [] \<or> hd r = CHR ''/''"
    by (auto simp: within_iff)
  show ?thesis
  proof (cases "last a = CHR ''/''")
    case True
    with r assms(3) have "r \<noteq> []" by auto
    with r have "hd (r @ b) = CHR ''/''" by simp
    moreover have "os_path_join a b = d @ (r @ b)"
      using True assms(4) r by (auto simp: os_path_join_def absolute_def)
    ultimately show ?thesis unfolding within_iff by blast
  next
    case False
    have "os_path_join a b = d @ (r @ CHR ''/'' # b)"
      using False assms(2,4) r by (auto simp: os_path_join_def absolute_def)
    moreover have "hd (r @ CHR ''/'' # b) = CHR ''/''" using r by (cases r) auto
    ultimately show ?thesis unfolding within_iff by blast
  qed
qed

lemma within_refl: "within d d"
  by (simp add: within_def)

lemma splitext_stem: "\<exists>k. fst (os_path_splitext n) = take k n"
proof (cases "fst (os_path_splitext n) = n")
  case True
  then show ?thesis by (metis take_all order_refl)
next
  case False
  then show ?thesis by (auto simp: os_path_splitext_def Let_def split: if_splits)
qed

lemma out_filename_relative:
  assumes "CHR ''/'' \<notin> set n"
  shows "\<not> absolute (out_filename fs n)"
proof -
  have n: "\<not> absolute n" using assms by (cases n) (auto simp: absolute_def)
  obtain k where k: "fst (os_path_splitext n) = take k n" using splitext_stem by blast
  have "\<not> absolute (take k n @ ''_'' @ x)" for x
  proof (cases "take k n")
    case Nil
    show ?thesis unfolding Nil by (simp add: absolute_def)
  next
    case (Cons a as)
    then have "k \<noteq> 0" "n \<noteq> []" by (cases k; auto)+
    then have "hd (take k n) = hd n" by (cases n; cases k) auto
    with Cons \<open>n \<noteq> []\<close> n show ?thesis by (simp add: absolute_def)
  qed
  then have "\<not> absolute (fst (os_path_splitext n) @ ''_'' @ x)" for x
    unfolding k .
  then show ?thesis using n by (simp add: out_filename_def Let_def)
qed

section \<open>The header registry\<close>

text \<open>Sequencing preserves every reflexive and transitive relation its statements keep.\<close>

lemma seq_rel:
  assumes refl: "\<And>s. R s s"
    and trans: "\<And>s t u. R s t \<Longrightarrow> R t u \<Longrightarrow> R s u"
    and step: "\<And>f s. f \<in> set fs \<Longrightarrow> R s (snd (f s))"
  shows "R s (snd (seq fs s))"
  using step
proof (induction fs arbitrary: s)
  case Nil
  then show ?case by (simp add: refl)
next
  case (Cons f fs)
  obtain out s1 where f: "f s = (out, s1)" by (cases "f s")
  have r1: "R s s1" using Cons.prems [of f s] f by simp
  show ?case
  proof (cases out)
    case Ok
    have "R s1 (snd (seq fs s1))" using Cons.IH Cons.prems by simp
    with Ok f r1 show ?thesis by (auto intro: trans)
  next
    case (Raised e)
    with f r1 show ?thesis by simp
  qed
qed

lemma entries_registry_add:
  "entries (registry_add k t r) h = (if h = k then List.insert t (entries r k) else entries r h)"
  by (induction r) (auto simp: entries_def)

lemma registry_add_absorb: "t \<in> set (entries r k) \<Longrightarrow> registry_add k t r = r"
  by (induction r) (auto simp: entries_def split: if_splits)

lemma keys_registry_add:
  "map fst (registry_add k t r) = (if k \<in> set (map fst r) then map fst r else map fst r @ [k])"
  by (induction r) force+

lemma add_all_simps [simp]:
  "add_all t [] r = r"
  "add_all t (n # ns) r = add_all t ns (registry_add n t r)"
  "add_all t (ms @ ns) r = add_all t ns (add_all t ms r)"
  by (simp_all add: add_all_def)

lemma set_entries_add_all:
  "set (entries (add_all t names r) h) = set (entries r h) \<union> (if h \<in> set names then {t} else {})"
  by (induction names arbitrary: r) (auto simp: entries_registry_add)

lemma distinct_entries_add_all:
  "distinct (entries r h) \<Longrightarrow> distinct (entries (add_all t names r) h)"
proof (induction names arbitrary: r)
  case Nil
  then show ?case by simp
next
  case (Cons n ns)
  have "distinct (entries (registry_add n t r) h)"
    using Cons.prems by (auto simp add: entries_registry_add)
  then show ?case using Cons.IH by simp
qed

lemma distinct_keys_add_all:
  "distinct (map fst r) \<Longrightarrow> distinct (map fst (add_all t names r))"
  by (induction names arbitrary: r) (auto simp: keys_registry_add)

lemma add_all_absorb: "\<forall>n\<in>set names. t \<in> set (entries r n) \<Longrightarrow> add_all t names r = r"
  by (induction names arbitrary: r) (auto simp: registry_add_absorb)

text \<open>
  All that \<open>build_target\<close> does to the registry is to record its own tuple under names,
  and these are plain names.
\<close>

lemma key_set_registry_add: "fst ` set (registry_add k t r) = insert k (fst ` set r)"
  using keys_registry_add [of k t r, THEN arg_cong, of set]
  by (cases "k \<in> fst ` set r") (simp_all add: insert_absorb)

lemma keys_add_all: "fst ` set (add_all t names r) = fst ` set r \<union> set names"
  by (induction names arbitrary: r) (simp_all add: key_set_registry_add)

lemma build_target_registry_names:
  "\<exists>names. (\<forall>n\<in>set names. CHR ''/'' \<notin> set n) \<and>
      fst (snd (build_target cmd p s)) = add_all (tag_of p) names (fst s)"
proof -
  let ?R = "\<lambda>s s'. \<exists>names. (\<forall>n\<in>set names. CHR ''/'' \<notin> set n) \<and>
               fst s' = add_all (tag_of p) names (fst s)"
  have sq: "?R s (snd (seq fs s))" if "\<And>f s. f \<in> set fs \<Longrightarrow> ?R s (snd (f s))"
    for fs :: "(registry \<times> world \<Rightarrow> outcome \<times> registry \<times> world) list"
  proof (rule seq_rel [where R = ?R])
    show "?R s s" for s by (rule exI [of _ "[]"]) simp
    show "?R s u" if "?R s t" "?R t u" for s t u
    proof -
      from that obtain ms ns where
        "\<forall>n\<in>set ms. CHR ''/'' \<notin> set n" "fst t = add_all (tag_of p) ms (fst s)"
        "\<forall>n\<in>set ns. CHR ''/'' \<notin> set n" "fst u = add_all (tag_of p) ns (fst t)"
        by blast
      then have "(\<forall>n\<in>set (ms @ ns). CHR ''/'' \<notin> set n) \<and>
                 fst u = add_all (tag_of p) (ms @ ns) (fst s)" by auto
      then show ?thesis by blast
    qed
  qed (use that in blast)
  have onw: "?R s (snd (on_world f s))" for f and s :: "registry \<times> world"
    by (rule exI [of _ "[]"]) (simp add: on_world_def split: prod.splits)
  have recd: "?R s (snd (record_headers p src s))" for src s
    by (rule exI [of _ "list_files src (Some ''*.h'') [] (snd s)"])
       (auto simp: record_headers_def add_all_def tag_of_def dest: list_files_slashless)
  show ?thesis
    unfolding build_target_def Let_def
  proof (rule sq)
    fix f s
    assume "f \<in> set ([on_world (mkdir_p (build_dir_of p)), on_world (run_configure cmd p)] @
           concat (map (\<lambda>src.
               [on_world (copy_files src (os_path_join (directory p) ''include'')
                            (Some ''*.h'') [] (Some (arch p))
                            (Some (prefix p)) (Some (suffix p))),
                record_headers p src])
             [build_dir_of p, os_path_join (build_dir_of p) ''include'']))"
    then consider g where "f = on_world g" | src where "f = record_headers p src"
      by auto
    then show "?R s (snd (f s))"
      using onw recd by cases blast+
  qed
qed

lemma build_target_registry:
  "\<exists>names. fst (snd (build_target cmd p s)) = add_all (tag_of p) names (fst s)"
  using build_target_registry_names [of cmd p s] by blast

text \<open>
  Claim C8. The registry maps a header name to a set of (prefix, arch, suffix) tuples.
  Across two runs of \<open>build_target\<close> for the same descriptor, however they end: no tuple
  is ever removed; nothing but the descriptor's own tuple is added; a set never holds a
  tuple twice and the dictionary never holds a name twice; and when the second run
  records no (name, tuple) pair that the first run had not recorded, the registry after
  the second run is the registry after the first.
\<close>

theorem registry_set_semantics:
  assumes "build_target cmd p (reg, w) = (out1, reg1, w1)"
    and "build_target cmd p (reg1, w1) = (out2, reg2, w2)"
  shows "(\<forall>h. set (entries reg h) \<subseteq> set (entries reg1 h) \<and>
              set (entries reg1 h) \<subseteq> set (entries reg2 h)) \<and>
         (\<forall>h. set (entries reg2 h) \<subseteq> insert (tag_of p) (set (entries reg h))) \<and>
         ((\<forall>h. distinct (entries reg h)) \<longrightarrow> (\<forall>h. distinct (entries reg2 h))) \<and>
         (distinct (map fst reg) \<longrightarrow> distinct (map fst reg2)) \<and>
         ((\<forall>h. tag_of p \<in> set (entries reg2 h) \<longrightarrow> tag_of p \<in> set (entries reg1 h))
            \<longrightarrow> reg2 = reg1)"
proof -
  obtain ms where ms: "reg1 = add_all (tag_of p) ms reg"
    using build_target_registry [of cmd p "(reg, w)"] assms(1) by auto
  obtain ns where ns: "reg2 = add_all (tag_of p) ns reg1"
    using build_target_registry [of cmd p "(reg1, w1)"] assms(2) by auto
  have grow: "\<forall>h. set (entries reg h) \<subseteq> set (entries reg1 h) \<and>
                  set (entries reg1 h) \<subseteq> set (entries reg2 h)"
    by (auto simp: ms ns set_entries_add_all)
  have only: "\<forall>h. set (entries reg2 h) \<subseteq> insert (tag_of p) (set (entries reg h))"
    by (auto simp: ms ns set_entries_add_all split: if_splits)
  have dist: "(\<forall>h. distinct (entries reg h)) \<longrightarrow> (\<forall>h. distinct (entries reg2 h))"
    by (simp add: ms ns distinct_entries_add_all)
  have keys: "distinct (map fst reg) \<longrightarrow> distinct (map fst reg2)"
    by (simp add: ms ns distinct_keys_add_all)
  have same: "reg2 = reg1"
    if h: "\<forall>h. tag_of p \<in> set (entries reg2 h) \<longrightarrow> tag_of p \<in> set (entries reg1 h)"
  proof -
    have "\<forall>n\<in>set ns. tag_of p \<in> set (entries reg1 n)"
      using h by (auto simp: ns set_entries_add_all)
    then show ?thesis unfolding ns by (rule add_all_absorb)
  qed
  from grow only dist keys same show ?thesis by blast
qed

theorem registry_set_semantics_witness:
  "fst (snd (build_target (example_configure 0) desktop_arm64_platform
       (snd (build_target (example_configure 0) desktop_arm64_platform ([], empty_world)))))
   = fst (snd (build_target (example_configure 0) desktop_arm64_platform ([], empty_world))) \<and>
   fst (snd (build_target (example_configure 0) desktop_arm64_platform ([], empty_world)))
   = [(''fficonfig.h'', [tag_of desktop_arm64_platform]),
      (''ffi.h'', [tag_of desktop_arm64_platform])]"
proof -
  let ?r1 = "build_target (example_configure 0) desktop_arm64_platform ([], empty_world)"
  let ?r2 = "build_target (example_configure 0) desktop_arm64_platform (snd ?r1)"
  let ?R = "[(''fficonfig.h'', [tag_of desktop_arm64_platform]),
             (''ffi.h'', [tag_of desktop_arm64_platform])]"
  have e1: "fst (snd ?r1) = ?R" by code_simp
  have e2: "fst (snd ?r2) = ?R" by code_simp
  have a1: "?r1 = (fst ?r1, fst (snd ?r1), snd (snd ?r1))" by simp
  have a2: "build_target (example_configure 0) desktop_arm64_platform
              (fst (snd ?r1), snd (snd ?r1)) = (fst ?r2, fst (snd ?r2), snd (snd ?r2))"
    by simp
  have "(\<forall>h. tag_of desktop_arm64_platform \<in> set (entries (fst (snd ?r2)) h)
            \<longrightarrow> tag_of desktop_arm64_platform \<in> set (entries (fst (snd ?r1)) h))
        \<longrightarrow> fst (snd ?r2) = fst (snd ?r1)"
    using registry_set_semantics [OF a1 a2] by blast
  moreover have "\<forall>h. tag_of desktop_arm64_platform \<in> set (entries (fst (snd ?r2)) h)
            \<longrightarrow> tag_of desktop_arm64_platform \<in> set (entries (fst (snd ?r1)) h)"
    unfolding e1 e2 by simp
  ultimately have "fst (snd ?r2) = fst (snd ?r1)" by blast
  with e1 show ?thesis by simp
qed

section \<open>The header unifier\<close>

lemma os_path_join_common_inj:
  "os_path_join ''darwin_common/include'' a = os_path_join ''darwin_common/include'' b \<Longrightarrow> a = b"
  by (cases a; cases b) (auto simp: os_path_join_def split: if_splits)

lemma write_umbrella_Ok:
  assumes "write_umbrella (h, ts) w = (Ok, w')"
  shows "read_file w' = (read_file w)(os_path_join ''darwin_common/include'' h \<mapsto>
           concat (map (include_block h) ts))"
proof -
  let ?p = "os_path_join ''darwin_common/include'' h"
  obtain out w1 where ow: "open_write ?p w = (out, w1)" by (cases "open_write ?p w")
  with assms have "out = Ok" by (cases out) (auto simp: write_umbrella_def Let_def)
  with ow have w1: "w1 = put_file ?p [] (log_event (Open_write ?p) w)"
    by (simp add: open_write_Ok)
  from assms ow \<open>out = Ok\<close> have "w' = put_file ?p (concat (map (include_block h) ts)) w1"
    by (auto simp: write_umbrella_def Let_def)
  then show ?thesis by (simp add: w1)
qed

lemma umbrellas_frame:
  "seq (map write_umbrella reg) w = (Ok, w') \<Longrightarrow>
   q \<notin> os_path_join ''darwin_common/include'' ` fst ` set reg \<Longrightarrow> read_file w' q = read_file w q"
proof (induction reg arbitrary: w)
  case Nil
  then show ?case by simp
next
  case (Cons a reg)
  obtain h ts where a: "a = (h, ts)" by (cases a)
  from Cons.prems(1) obtain w1 where s: "write_umbrella (h, ts) w = (Ok, w1)"
    "seq (map write_umbrella reg) w1 = (Ok, w')"
    using seq_Cons_Ok [of "write_umbrella a" "map write_umbrella reg" w w'] a by auto
  have "read_file w' q = read_file w1 q" using Cons.IH [OF s(2)] Cons.prems(2) by simp
  also have "\<dots> = read_file w q" using write_umbrella_Ok [OF s(1)] Cons.prems(2) a by simp
  finally show ?case .
qed

lemma umbrellas_written:
  "seq (map write_umbrella reg) w = (Ok, w') \<Longrightarrow> distinct (map fst reg) \<Longrightarrow>
   (h, ts) \<in> set reg \<Longrightarrow>
   read_file w' (os_path_join ''darwin_common/include'' h) = Some (concat (map (include_block h) ts))"
proof (induction reg arbitrary: w)
  case Nil
  then show ?case by simp
next
  case (Cons a reg)
  obtain k us where a: "a = (k, us)" by (cases a)
  from Cons.prems(1) obtain w1 where s: "write_umbrella (k, us) w = (Ok, w1)"
    "seq (map write_umbrella reg) w1 = (Ok, w')"
    using seq_Cons_Ok [of "write_umbrella a" "map write_umbrella reg" w w'] a by auto
  show ?case
  proof (cases "(h, ts) = (k, us)")
    case True
    have "k \<notin> fst ` set reg" using Cons.prems(2) a by simp
    then have "os_path_join ''darwin_common/include'' k
        \<notin> os_path_join ''darwin_common/include'' ` fst ` set reg"
      using os_path_join_common_inj by blast
    then have "read_file w' (os_path_join ''darwin_common/include'' k)
        = read_file w1 (os_path_join ''darwin_common/include'' k)"
      by (rule umbrellas_frame [OF s(2)])
    with write_umbrella_Ok [OF s(1)] True show ?thesis by simp
  next
    case False
    with Cons.prems(3) a have "(h, ts) \<in> set reg" by auto
    with Cons.IH [OF s(2)] Cons.prems(2) show ?thesis by simp
  qed
qed

text \<open>
  Claim C2. For every header name of the registry (a dictionary: no name twice), a run of
  the unifier that succeeds leaves one file of that name in \<^verbatim>\<open>darwin_common/include\<close>.
  Its content is, for each recorded tuple, the block: guard prefix, the line
  \<^verbatim>\<open>#include <stem_arch.ext>\<close>, guard suffix, a newline. The witness is the scenario of
  the specification: the two desktop descriptors, x86_64 and arm64, both produce
  \<^verbatim>\<open>foo.h\<close>, and the umbrella \<^verbatim>\<open>foo.h\<close> holds both guarded blocks.
\<close>

theorem umbrella_headers:
  assumes "unify_headers platform_headers w = (Ok, w')"
    and "distinct (map fst platform_headers)"
  shows "\<forall>(header_name, tag_tuples) \<in> set platform_headers.
           read_file w' (os_path_join ''darwin_common/include'' header_name) =
             Some (concat (map (\<lambda>(guard_prefix, architecture, guard_suffix).
                 guard_prefix @ ''#include <'' @ fst (os_path_splitext header_name) @ ''_''
                   @ architecture @ snd (os_path_splitext header_name) @ ''>'' @ newline
                   @ guard_suffix @ newline) tag_tuples))"
proof -
  from assms(1) obtain w1 where
    s: "seq (map write_umbrella platform_headers) w1 = (Ok, w')"
    unfolding unify_headers_def
    using seq_Cons_Ok [of "mkdir_p ''darwin_common/include''"
        "map write_umbrella platform_headers" w w'] by auto
  have blk: "include_block h = (\<lambda>(guard_prefix, architecture, guard_suffix).
                 guard_prefix @ ''#include <'' @ fst (os_path_splitext h) @ ''_''
                   @ architecture @ snd (os_path_splitext h) @ ''>'' @ newline
                   @ guard_suffix @ newline)" for h
    by (rule ext) (simp add: include_block_def Let_def split: prod.splits)
  show ?thesis
    using umbrellas_written [OF s assms(2)] by (auto simp: blk)
qed

theorem umbrella_headers_witness:
  "fst (build_all foo_configure True False False empty_world) = Ok \<and>
   fst (snd (build_all foo_configure True False False empty_world)) =
     [(''foo.h'', [tag_of desktop_arm64_platform, tag_of desktop_amd64_platform])] \<and>
   read_file
     (snd (unify_headers (fst (snd (build_all foo_configure True False False empty_world)))
        (snd (snd (build_all foo_configure True False False empty_world)))))
     ''darwin_common/include/foo.h'' =
   Some (''#ifdef __arm64__'' @ newline @ newline @ ''#include <foo_arm64.h>'' @ newline
           @ newline @ newline @ ''#endif'' @ newline @
         ''#ifdef __x86_64__'' @ newline @ newline @ ''#include <foo_x86_64.h>'' @ newline
           @ newline @ newline @ ''#endif'' @ newline)"
proof -
  let ?b = "build_all foo_configure True False False empty_world"
  let ?reg = "[(''foo.h'', [tag_of desktop_arm64_platform, tag_of desktop_amd64_platform])]"
  let ?u = "unify_headers (fst (snd ?b)) (snd (snd ?b))"
  have b: "fst ?b = Ok" by code_simp
  have reg: "fst (snd ?b) = ?reg" by code_simp
  have ok: "fst ?u = Ok" by code_simp
  have u: "unify_headers ?reg (snd (snd ?b)) = (Ok, snd ?u)"
    using ok unfolding reg by (simp add: prod_eq_iff)
  have d: "distinct (map fst ?reg)" by simp
  have "read_file (snd ?u) (os_path_join ''darwin_common/include'' ''foo.h'') =
          Some (concat (map (\<lambda>(guard_prefix, architecture, guard_suffix).
                 guard_prefix @ ''#include <'' @ fst (os_path_splitext ''foo.h'') @ ''_''
                   @ architecture @ snd (os_path_splitext ''foo.h'') @ ''>'' @ newline
                   @ guard_suffix @ newline)
              [tag_of desktop_arm64_platform, tag_of desktop_amd64_platform]))"
    using umbrella_headers [OF u d] by simp
  moreover have "os_path_join ''darwin_common/include'' ''foo.h'' = ''darwin_common/include/foo.h''"
    by code_simp
  moreover have "os_path_splitext ''foo.h'' = (''foo'', ''.h'')" by code_simp
  ultimately show ?thesis
    using b reg
    by (simp add: tag_of_def desktop_arm64_platform_def desktop_amd64_platform_def)
qed

section \<open>Staging the sources of a descriptor\<close>

lemma platforms_apart: "list_all staging_paths_apart platforms"
  by code_simp

lemma universal_newlines_id: "CHR 0x0D \<notin> set c \<Longrightarrow> universal_newlines c = c"
  by (induction c rule: universal_newlines.induct) auto

lemma read_text_Some: "read_text c = Some t \<longleftrightarrow> decode c = Some c \<and> t = universal_newlines c"
  by (auto simp: read_text_def decode_def)

lemma move_file_Ok:
  assumes "move_file src dst f fs pre suf w = (Ok, w')"
  shows "\<exists>c. read_file w (os_path_join src f) = Some c \<and>
             (os_path_join dst (out_filename fs f) \<noteq> os_path_join src f \<longrightarrow> decode c = Some c) \<and>
             read_file w' = (read_file w)(os_path_join dst (out_filename fs f) \<mapsto>
               text_of pre @ (if os_path_join dst (out_filename fs f) = os_path_join src f
                              then [] else universal_newlines c) @ text_of suf)"
proof -
  let ?i = "os_path_join src f" and ?o = "os_path_join dst (out_filename fs f)"
  from assms obtain w1 w2 w3 where
    1: "mkdir_p dst w = (Ok, w1)" and 2: "open_read ?i w1 = (Ok, w2)"
    and 3: "open_write ?o w2 = (Ok, w3)" and 4: "write_wrapped ?i ?o pre suf w3 = (Ok, w')"
    unfolding move_file_def by (auto simp: seq_Cons_Ok simp del: seq.simps(2))
  have r1: "read_file w1 = read_file w" using 1 read_file_mkdir_p [of dst w] by simp
  from open_read_Ok [OF 2] have w2: "w2 = log_event (Open_read ?i) w1" and f: "is_file w1 ?i"
    by simp_all
  from f r1 obtain c where c: "read_file w ?i = Some c" by (auto simp: is_file_def)
  from open_write_Ok [OF 3] have w3: "w3 = put_file ?o [] (log_event (Open_write ?o) w2)" .
  have r3: "read_file w3 = (read_file w)(?o \<mapsto> [])" by (simp add: w3 w2 r1)
  define bytes where "bytes = (if ?o = ?i then [] else c)"
  have b: "(case read_file w3 ?i of None \<Rightarrow> [] | Some c \<Rightarrow> c) = bytes"
    by (simp add: r3 c bytes_def)
  from 4 obtain t where t: "read_text bytes = Some t"
    and w': "w' = put_file ?o (text_of pre @ t @ text_of suf) w3"
    unfolding write_wrapped_def Let_def b by (auto split: option.splits)
  from t have d: "decode bytes = Some bytes" and tt: "t = universal_newlines bytes"
    by (simp_all add: read_text_Some)
  have "read_file w' = (read_file w)(?o \<mapsto>
      text_of pre @ (if ?o = ?i then [] else universal_newlines c) @ text_of suf)"
    unfolding w' tt bytes_def by (auto simp: r3)
  moreover have "?o \<noteq> ?i \<longrightarrow> decode c = Some c"
    using d by (auto simp: bytes_def split: if_splits)
  ultimately show ?thesis using c by blast
qed

lemma move_all_frame:
  "seq (map (\<lambda>f. move_file src dst f fs pre suf) names) w = (Ok, w') \<Longrightarrow>
   q \<notin> (\<lambda>f. os_path_join dst (out_filename fs f)) ` set names \<Longrightarrow>
   read_file w' q = read_file w q"
proof (induction names arbitrary: w)
  case Nil
  then show ?case by simp
next
  case (Cons n ns)
  from Cons.prems(1) obtain w1 where
    s: "move_file src dst n fs pre suf w = (Ok, w1)"
       "seq (map (\<lambda>f. move_file src dst f fs pre suf) ns) w1 = (Ok, w')"
    by (auto simp: seq_Cons_Ok simp del: seq.simps(2))
  have "read_file w' q = read_file w1 q" using Cons.IH [OF s(2)] Cons.prems(2) by simp
  also have "\<dots> = read_file w q" using move_file_Ok [OF s(1)] Cons.prems(2) by auto
  finally show ?case .
qed

lemma move_all_content:
  assumes "seq (map (\<lambda>f. move_file src dst f fs pre suf) names) w = (Ok, w')"
    and "\<forall>y\<in>set names. \<forall>x\<in>set names.
           os_path_join dst (out_filename fs x) \<noteq> os_path_join src y"
    and "distinct (map (\<lambda>f. os_path_join dst (out_filename fs f)) names)"
    and "n \<in> set names"
  shows "\<exists>c. read_file w (os_path_join src n) = Some c \<and> decode c = Some c \<and>
             read_file w' (os_path_join dst (out_filename fs n)) =
               Some (text_of pre @ universal_newlines c @ text_of suf)"
  using assms
proof (induction names arbitrary: w)
  case Nil
  then show ?case by simp
next
  case (Cons m ms)
  let ?o = "\<lambda>f. os_path_join dst (out_filename fs f)"
  from Cons.prems(1) obtain w1 where
    s: "move_file src dst m fs pre suf w = (Ok, w1)"
       "seq (map (\<lambda>f. move_file src dst f fs pre suf) ms) w1 = (Ok, w')"
    by (auto simp: seq_Cons_Ok simp del: seq.simps(2))
  have ne: "?o m \<noteq> os_path_join src y" if "y \<in> set (m # ms)" for y
    using Cons.prems(2) that by auto
  from move_file_Ok [OF s(1)] ne [of m] obtain c where
    c: "read_file w (os_path_join src m) = Some c" "decode c = Some c"
    and w1: "read_file w1 = (read_file w)(?o m \<mapsto>
               text_of pre @ universal_newlines c @ text_of suf)"
    by auto
  show ?case
  proof (cases "n \<in> set ms")
    case True
    have "\<exists>c. read_file w1 (os_path_join src n) = Some c \<and> decode c = Some c \<and>
             read_file w' (?o n) = Some (text_of pre @ universal_newlines c @ text_of suf)"
      using Cons.IH [OF s(2)] Cons.prems(2,3) True by simp
    moreover have "read_file w1 (os_path_join src n) = read_file w (os_path_join src n)"
      using ne [of n] True by (simp add: w1)
    ultimately show ?thesis by simp
  next
    case False
    with Cons.prems(4) have nm: "n = m" by simp
    have "?o m \<notin> ?o ` set ms" using Cons.prems(3) by simp
    then have "read_file w' (?o m) = read_file w1 (?o m)"
      by (rule move_all_frame [OF s(2)])
    also have "\<dots> = Some (text_of pre @ universal_newlines c @ text_of suf)"
      by (simp add: w1)
    finally show ?thesis using c nm by simp
  qed
qed

text \<open>
  Claim C1, as amended. For every descriptor of the table, after a source staging that
  succeeds, the destination directory \<^verbatim>\<open>directory/src/src_dir\<close> (not the include
  directory) holds one file per listed header, under the header's own name. The original
  in \<^verbatim>\<open>src/src_dir\<close> is well-formed UTF-8, and the staged file holds the guard prefix, then
  the original with its line endings CR LF and CR turned into LF, then the guard suffix:
  byte for byte prefix, original, suffix when the original holds no CR.
\<close>

theorem staged_headers_wrapped:
  assumes "p \<in> set platforms"
    and "copy_src_platform_files p w = (Ok, w')"
    and "h \<in> set (hdr_files p)"
  shows "\<exists>c. read_file w (os_path_join (os_path_join ''src'' (src_dir p)) h) = Some c \<and>
             decode c = Some c \<and>
             read_file w'
               (os_path_join (os_path_join (os_path_join (directory p) ''src'') (src_dir p)) h)
             = Some (prefix p @ universal_newlines c @ suffix p) \<and>
             (CHR 0x0D \<notin> set c \<longrightarrow>
                read_file w'
                  (os_path_join (os_path_join (os_path_join (directory p) ''src'') (src_dir p)) h)
                = Some (prefix p @ c @ suffix p))"
proof -
  let ?src = "os_path_join ''src'' (src_dir p)"
  let ?dst = "os_path_join (os_path_join (directory p) ''src'') (src_dir p)"
  from assms(1) platforms_apart have ap: "staging_paths_apart p" by (simp add: list_all_iff)
  have a1: "\<forall>y\<in>set (hdr_files p). \<forall>x\<in>set (src_files p).
                   os_path_join ?dst (out_filename (Some (arch p)) x) \<noteq> os_path_join ?src y"
    using ap unfolding staging_paths_apart_def Let_def list_all_iff by blast
  have a2: "\<forall>y\<in>set (hdr_files p). \<forall>x\<in>set (hdr_files p).
                   os_path_join ?dst (out_filename None x) \<noteq> os_path_join ?src y"
    using ap unfolding staging_paths_apart_def Let_def list_all_iff
    by (simp add: out_filename_def truthy_def)
  have a3: "distinct (map (\<lambda>f. os_path_join ?dst (out_filename None f)) (hdr_files p))"
    using ap unfolding staging_paths_apart_def Let_def
    by (simp add: out_filename_def truthy_def)
  have a4: "map os_path_basename (src_files p) = src_files p"
    and a5: "map os_path_basename (hdr_files p) = hdr_files p"
    using ap unfolding staging_paths_apart_def Let_def by blast+
  from assms(2) obtain w1 where
    s1: "seq (map (\<lambda>f. move_file ?src ?dst f (Some (arch p)) (Some (prefix p)) (Some (suffix p)))
           (src_files p)) w = (Ok, w1)"
    and s2: "seq (map (\<lambda>f. move_file ?src ?dst f None (Some (prefix p)) (Some (suffix p)))
           (hdr_files p)) w1 = (Ok, w')"
    unfolding copy_src_platform_files_def Let_def copy_files_def list_files_def
    by (auto simp: seq_Cons_Ok truthy_def a4 a5 simp del: seq.simps(2))
  from move_all_content [OF s2 a2 a3 assms(3)] obtain c where
    c: "read_file w1 (os_path_join ?src h) = Some c" "decode c = Some c"
       "read_file w' (os_path_join ?dst h) = Some (prefix p @ universal_newlines c @ suffix p)"
    by (auto simp: out_filename_def truthy_def)
  have "os_path_join ?src h
          \<notin> (\<lambda>f. os_path_join ?dst (out_filename (Some (arch p)) f)) ` set (src_files p)"
  proof
    assume "os_path_join ?src h
          \<in> (\<lambda>f. os_path_join ?dst (out_filename (Some (arch p)) f)) ` set (src_files p)"
    then obtain f where "f \<in> set (src_files p)"
      "os_path_join ?dst (out_filename (Some (arch p)) f) = os_path_join ?src h"
      by (auto simp: image_iff)
    with a1 assms(3) show False by blast
  qed
  then have "read_file w1 (os_path_join ?src h) = read_file w (os_path_join ?src h)"
    by (rule move_all_frame [OF s1])
  with c show ?thesis by (simp add: universal_newlines_id)
qed

theorem staged_headers_wrapped_witness:
  "fst (copy_src_platform_files desktop_arm64_platform arm64_sources) = Ok \<and>
   read_file arm64_sources ''src/aarch64/internal.h'' = Some ''decls'' \<and>
   decode ''decls'' = Some ''decls'' \<and> CHR 0x0D \<notin> set ''decls'' \<and>
   read_file (snd (copy_src_platform_files desktop_arm64_platform arm64_sources))
     ''darwin_osx/src/aarch64/internal.h''
   = Some (''#ifdef __arm64__'' @ newline @ newline @ ''decls'' @ newline @ newline @ ''#endif'')"
proof -
  let ?r = "copy_src_platform_files desktop_arm64_platform arm64_sources"
  have ok: "fst ?r = Ok" by code_simp
  then have r: "?r = (Ok, snd ?r)" by (simp add: prod_eq_iff)
  have p: "desktop_arm64_platform \<in> set platforms" by (simp add: platforms_def)
  have h: "''internal.h'' \<in> set (hdr_files desktop_arm64_platform)"
    by (simp add: desktop_arm64_platform_def)
  have rd: "read_file arm64_sources ''src/aarch64/internal.h'' = Some ''decls''" by code_simp
  have cr: "CHR 0x0D \<notin> set ''decls''" by simp
  have j1: "os_path_join (os_path_join ''src'' (src_dir desktop_arm64_platform)) ''internal.h''
              = ''src/aarch64/internal.h''" by code_simp
  have j2: "os_path_join (os_path_join (os_path_join (directory desktop_arm64_platform) ''src'')
              (src_dir desktop_arm64_platform)) ''internal.h''
              = ''darwin_osx/src/aarch64/internal.h''" by code_simp
  from staged_headers_wrapped [OF p r h] rd ok cr show ?thesis
    unfolding j1 j2 by (auto simp: desktop_arm64_platform_def)
qed

text \<open>
  The headers do not go to the include directory of the descriptor: after staging the
  desktop arm64 descriptor there is no \<^verbatim>\<open>darwin_osx/include\<close> at all, and the wrapped
  \<^verbatim>\<open>internal.h\<close> is in \<^verbatim>\<open>darwin_osx/src/aarch64\<close>. Nor is the copy byte for byte: a
  header with the line ending CR LF is staged with LF.
\<close>

theorem staged_headers_not_in_include:
  "fst (copy_src_platform_files desktop_arm64_platform arm64_sources) = Ok \<and>
   read_file (snd (copy_src_platform_files desktop_arm64_platform arm64_sources))
     ''darwin_osx/include/internal.h'' = None \<and>
   \<not> is_dir (snd (copy_src_platform_files desktop_arm64_platform arm64_sources))
     ''darwin_osx/include'' \<and>
   read_file (snd (copy_src_platform_files desktop_arm64_platform arm64_sources))
     ''darwin_osx/src/aarch64/internal.h''
   = Some (''#ifdef __arm64__'' @ newline @ newline @ ''decls'' @ newline @ newline @ ''#endif'') \<and>
   read_file crlf_sources ''src/aarch64/internal.h''
   = Some (''int a;'' @ [CHR 0x0D, CHR 0x0A] @ ''int b;'') \<and>
   fst (copy_src_platform_files desktop_arm64_platform crlf_sources) = Ok \<and>
   read_file (snd (copy_src_platform_files desktop_arm64_platform crlf_sources))
     ''darwin_osx/src/aarch64/internal.h''
   = Some (''#ifdef __arm64__'' @ newline @ newline @ ''int a;'' @ newline @ ''int b;''
           @ newline @ newline @ ''#endif'')"
  by code_simp

text \<open>
  A header that is not well-formed UTF-8 ends the staging with \<open>UnicodeDecodeError\<close>; the
  staged file is left with the guard prefix only.
\<close>

lemma staged_header_undecodable:
  "fst (copy_src_platform_files desktop_arm64_platform latin1_sources)
   = Raised UnicodeDecodeError \<and>
   read_file (snd (copy_src_platform_files desktop_arm64_platform latin1_sources))
     ''darwin_osx/src/aarch64/internal.h''
   = Some (''#ifdef __arm64__'' @ newline @ newline)"
  by code_simp

section \<open>The calls of a run\<close>

lemma new_events_append: "events w' = es @ events w \<Longrightarrow> new_events w w' = es"
  by (simp add: new_events_def)

lemma emitsI:
  "(\<And>s. \<exists>es. events (g (snd (f s))) = es @ events (g s) \<and> list_all P es) \<Longrightarrow> emits g P f"
  by (simp add: emits_def)

lemma emitsD:
  "emits g P f \<Longrightarrow> \<exists>es. events (g (snd (f s))) = es @ events (g s) \<and> list_all P es"
  by (simp add: emits_def)

lemma emits_mono: "emits g P f \<Longrightarrow> (\<And>e. P e \<Longrightarrow> Q e) \<Longrightarrow> emits g Q f"
  unfolding emits_def list_all_iff by blast

lemma emits_seq:
  assumes "\<And>f. f \<in> set fs \<Longrightarrow> emits g P f"
  shows "emits g P (seq fs)"
proof (rule emitsI)
  fix s
  let ?R = "\<lambda>s s'. \<exists>es. events (g s') = es @ events (g s) \<and> list_all P es"
  show "?R s (snd (seq fs s))"
  proof (rule seq_rel [where R = ?R])
    show "?R s s" for s by (rule exI [of _ "[]"]) simp
    show "?R s u" if "?R s t" "?R t u" for s t u
    proof -
      from that obtain es1 es2 where
        "events (g t) = es1 @ events (g s)" "list_all P es1"
        "events (g u) = es2 @ events (g t)" "list_all P es2" by blast
      then have "events (g u) = (es2 @ es1) @ events (g s) \<and> list_all P (es2 @ es1)" by simp
      then show ?thesis by blast
    qed
    show "?R s (snd (f s))" if "f \<in> set fs" for f s
      using assms [OF that] by (rule emitsD)
  qed
qed

lemma emits_on_world: "emits (\<lambda>w. w) P f \<Longrightarrow> emits snd P (on_world f)"
  unfolding emits_def on_world_def by (auto split: prod.splits) (metis snd_conv)

lemma emits_mkdir_p: "emits (\<lambda>w. w) (\<lambda>e. e = Makedirs p) (mkdir_p p)"
  by (rule emitsI, rule_tac x = "[Makedirs p]" in exI)
     (simp add: snd_mkdir_p os_makedirs_def Let_def)

lemma emits_open_read: "emits (\<lambda>w. w) (\<lambda>e. e = Open_read p) (open_read p)"
  by (rule emitsI, rule_tac x = "[Open_read p]" in exI) (simp add: open_read_def Let_def)

lemma emits_open_write: "emits (\<lambda>w. w) (\<lambda>e. e = Open_write p) (open_write p)"
  by (rule emitsI, rule_tac x = "[Open_write p]" in exI) (simp add: open_write_def Let_def)

lemma emits_write_wrapped: "emits (\<lambda>w. w) P (write_wrapped a b pre suf)"
  by (rule emitsI, rule_tac x = "[]" in exI)
     (simp add: write_wrapped_def Let_def split: option.splits)

lemma emits_move_file:
  assumes "N n" "CHR ''/'' \<notin> set n"
  shows "emits (\<lambda>w. w) (staging_event N src dst fs) (move_file src dst n fs pre suf)"
  unfolding move_file_def
proof (rule emits_seq)
  fix f
  assume "f \<in> set [mkdir_p dst, open_read (os_path_join src n),
          open_write (os_path_join dst (out_filename fs n)),
          write_wrapped (os_path_join src n) (os_path_join dst (out_filename fs n)) pre suf]"
  then consider "f = mkdir_p dst" | "f = open_read (os_path_join src n)"
    | "f = open_write (os_path_join dst (out_filename fs n))"
    | "f = write_wrapped (os_path_join src n) (os_path_join dst (out_filename fs n)) pre suf"
    by auto
  then show "emits (\<lambda>w. w) (staging_event N src dst fs) f"
  proof cases
    case 1
    show ?thesis unfolding 1
      by (rule emits_mono [OF emits_mkdir_p]) (simp add: staging_event_def)
  next
    case 2
    show ?thesis unfolding 2
      by (rule emits_mono [OF emits_open_read]) (use assms in \<open>auto simp: staging_event_def\<close>)
  next
    case 3
    show ?thesis unfolding 3
      by (rule emits_mono [OF emits_open_write]) (use assms in \<open>auto simp: staging_event_def\<close>)
  next
    case 4
    show ?thesis unfolding 4 by (rule emits_write_wrapped)
  qed
qed

lemma emits_copy_files:
  assumes "\<And>w n. n \<in> set (list_files src pat fl w) \<Longrightarrow> N n"
  shows "emits (\<lambda>w. w) (staging_event N src dst fs) (copy_files src dst pat fl fs pre suf)"
proof (rule emitsI)
  fix w
  have "emits (\<lambda>w. w) (staging_event N src dst fs)
          (seq (map (\<lambda>filename. move_file src dst filename fs pre suf)
             (list_files src pat fl w)))"
    by (rule emits_seq) (auto intro!: emits_move_file assms list_files_slashless)
  from emitsD [OF this, of w]
  show "\<exists>es. events (snd (copy_files src dst pat fl fs pre suf w)) = es @ events w \<and>
            list_all (staging_event N src dst fs) es"
    by (simp add: copy_files_def)
qed

lemma list_files_filelist: "n \<in> set (list_files src None fl w) \<Longrightarrow> n \<in> set (map os_path_basename fl)"
  by (simp add: list_files_def truthy_def)

lemma emits_copy_src_platform_files:
  "emits (\<lambda>w. w) (platform_event p) (copy_src_platform_files p)"
  unfolding copy_src_platform_files_def Let_def
proof (rule emits_seq)
  fix f
  let ?a = "copy_files (os_path_join ''src'' (src_dir p))
              (os_path_join (os_path_join (directory p) ''src'') (src_dir p)) None (src_files p)
              (Some (arch p)) (Some (prefix p)) (Some (suffix p))"
  let ?b = "copy_files (os_path_join ''src'' (src_dir p))
              (os_path_join (os_path_join (directory p) ''src'') (src_dir p)) None (hdr_files p)
              None (Some (prefix p)) (Some (suffix p))"
  assume "f \<in> set [?a, ?b]"
  then consider "f = ?a" | "f = ?b" by auto
  then show "emits (\<lambda>w. w) (platform_event p) f"
  proof cases
    case 1
    show ?thesis unfolding 1
      by (rule emits_mono [OF emits_copy_files
            [where N = "\<lambda>n. n \<in> set (map os_path_basename (src_files p))"]])
         (auto dest: list_files_filelist simp: platform_event_def platform_src_def platform_dst_def)
  next
    case 2
    show ?thesis unfolding 2
      by (rule emits_mono [OF emits_copy_files
            [where N = "\<lambda>n. n \<in> set (map os_path_basename (hdr_files p))"]])
         (auto dest: list_files_filelist simp: platform_event_def platform_src_def platform_dst_def)
  qed
qed

text \<open>The three ways a configure run ends, with the calls it makes.\<close>

lemma run_configure_cases:
  "\<exists>c status.
     (fst (run_configure cmd p w) = (if status = 0 then Ok else Raised (CalledProcessError status)) \<and>
      events (snd (run_configure cmd p w)) =
        [Chdir (os_getcwd w),
         Check_call c [''../configure'', ''-host'', triple p] (build_env p) status,
         Chdir (build_dir_of p)] @ events w) \<or>
     ((\<exists>err. fst (run_configure cmd p w) = Raised (OSError err)) \<and>
      events (snd (run_configure cmd p w)) =
        [Chdir (os_getcwd w), Chdir (build_dir_of p)] @ events w)"
proof -
  let ?bd = "build_dir_of p"
  obtain out w1 where c1: "os_chdir ?bd w = (out, w1)" by (cases "os_chdir ?bd w")
  have e1: "events w1 = Chdir ?bd # events w"
    using c1 by (auto simp: os_chdir_def Let_def split: if_splits)
  show ?thesis
  proof (cases out)
    case Ok
    let ?argv = "[''../configure'', ''-host'', triple p]"
    obtain st fs' ds' where cm: "cmd (os_getcwd w1) ?argv (build_env p) (files w1, dirs w1)
        = (st, fs', ds')"
      by (cases "cmd (os_getcwd w1) ?argv (build_env p) (files w1, dirs w1)") auto
    let ?w2 = "log_event (Check_call (os_getcwd w1) ?argv (build_env p) st)
                 (w1\<lparr>files := fs', dirs := ds'\<rparr>)"
    have cc: "check_call cmd ?argv (build_env p) w1 =
                ((if st = 0 then Ok else Raised (CalledProcessError st)), ?w2)"
      by (simp add: check_call_def cm Let_def)
    have "fst (run_configure cmd p w) = (if st = 0 then Ok else Raised (CalledProcessError st))
        \<and> events (snd (run_configure cmd p w)) =
          [Chdir (os_getcwd w), Check_call (os_getcwd w1) ?argv (build_env p) st, Chdir ?bd]
            @ events w"
      using c1 Ok cc e1
      by (simp add: run_configure_def try_finally_def Let_def os_chdir_back)
    then show ?thesis by blast
  next
    case (Raised err)
    then have "\<exists>en. err = OSError en"
      using c1 by (auto simp: os_chdir_def Let_def split: if_splits)
    then have "(\<exists>err. fst (run_configure cmd p w) = Raised (OSError err)) \<and>
        events (snd (run_configure cmd p w)) = [Chdir (os_getcwd w), Chdir ?bd] @ events w"
      using c1 Raised e1
      by (auto simp add: run_configure_def try_finally_def Let_def os_chdir_back)
    then show ?thesis by blast
  qed
qed

lemma emits_run_configure: "emits (\<lambda>w. w) (platform_event p) (run_configure cmd p)"
proof (rule emitsI)
  fix w
  from run_configure_cases [of cmd p w]
  show "\<exists>es. events (snd (run_configure cmd p w)) = es @ events w \<and> list_all (platform_event p) es"
    by (auto simp: platform_event_def os_getcwd_def)
qed

lemma emits_record_headers: "emits snd P (record_headers p src)"
  by (rule emitsI, rule_tac x = "[]" in exI) (simp add: record_headers_def)

lemma emits_build_target: "emits snd (platform_event p) (build_target cmd p)"
  unfolding build_target_def Let_def
proof (rule emits_seq)
  fix f
  let ?cp = "\<lambda>src. on_world (copy_files src (os_path_join (directory p) ''include'')
                            (Some ''*.h'') [] (Some (arch p)) (Some (prefix p)) (Some (suffix p)))"
  assume "f \<in> set ([on_world (mkdir_p (build_dir_of p)), on_world (run_configure cmd p)] @
           concat (map (\<lambda>src. [?cp src, record_headers p src])
             [build_dir_of p, os_path_join (build_dir_of p) ''include'']))"
  then consider "f = on_world (mkdir_p (build_dir_of p))" | "f = on_world (run_configure cmd p)"
    | "f = ?cp (build_dir_of p)" | "f = ?cp (os_path_join (build_dir_of p) ''include'')"
    | src where "f = record_headers p src"
    by auto
  then show "emits snd (platform_event p) f"
  proof cases
    case 1
    show ?thesis unfolding 1
      by (rule emits_on_world, rule emits_mono [OF emits_mkdir_p]) (simp add: platform_event_def)
  next
    case 2
    show ?thesis unfolding 2 by (rule emits_on_world, rule emits_run_configure)
  next
    case 3
    show ?thesis unfolding 3
      by (rule emits_on_world, rule emits_mono [OF emits_copy_files [where N = "\<lambda>n. True"]])
         (simp_all add: platform_event_def platform_include_def)
  next
    case 4
    show ?thesis unfolding 4
      by (rule emits_on_world, rule emits_mono [OF emits_copy_files [where N = "\<lambda>n. True"]])
         (simp_all add: platform_event_def platform_include_def)
  next
    case 5
    show ?thesis unfolding 5 by (rule emits_record_headers)
  qed
qed

lemma build_target_keys: "keys_slashless (fst s) \<Longrightarrow> keys_slashless (fst (snd (build_target cmd p s)))"
proof -
  assume a: "keys_slashless (fst s)"
  from build_target_registry_names [of cmd p s] obtain names where
    n: "\<forall>n\<in>set names. CHR ''/'' \<notin> set n"
       "fst (snd (build_target cmd p s)) = add_all (tag_of p) names (fst s)" by blast
  have "fst ` set (fst (snd (build_target cmd p s))) = fst ` set (fst s) \<union> set names"
    unfolding n(2) by (rule keys_add_all)
  with a n(1) show ?thesis unfolding keys_slashless_def by blast
qed

lemma build_all_keys: "keys_slashless (fst (snd (build_all cmd osx ios tvos w)))"
proof -
  let ?R = "\<lambda>s s'. keys_slashless (fst s) \<longrightarrow> keys_slashless (fst s')"
  have "?R ([], w) (snd (seq (map (build_target cmd) (selected osx ios tvos)) ([], w)))"
    by (rule seq_rel [where R = ?R]) (auto simp: build_target_keys)
  then show ?thesis by (simp add: build_all_def keys_slashless_def)
qed

lemma emits_write_umbrella:
  "CHR ''/'' \<notin> set (fst item) \<Longrightarrow> emits (\<lambda>w. w) common_event (write_umbrella item)"
  unfolding write_umbrella_def Let_def
  by (rule emits_seq)
     (auto simp: common_event_def intro!: emits_mono [OF emits_open_write]
        intro: emitsI [where f = "\<lambda>w. (Ok, put_file _ _ w)"] exI [of _ "[]"])

lemma emits_unify_headers:
  assumes "keys_slashless reg"
  shows "emits (\<lambda>w. w) common_event (unify_headers reg)"
  unfolding unify_headers_def
proof (rule emits_seq)
  fix f
  assume "f \<in> set (mkdir_p ''darwin_common/include'' # map write_umbrella reg)"
  then consider "f = mkdir_p ''darwin_common/include''"
    | item where "item \<in> set reg" "f = write_umbrella item" by auto
  then show "emits (\<lambda>w. w) common_event f"
  proof cases
    case 1
    show ?thesis unfolding 1
      by (rule emits_mono [OF emits_mkdir_p]) (simp add: common_event_def staging_event_def)
  next
    case 2
    with assms have "CHR ''/'' \<notin> set (fst item)" unfolding keys_slashless_def by blast
    then show ?thesis unfolding 2 by (rule emits_write_umbrella)
  qed
qed

lemma emits_stage_sources:
  "emits (\<lambda>w. w) (run_event (selected osx ios tvos)) (stage_sources osx ios tvos)"
  unfolding stage_sources_def
proof (rule emits_seq)
  fix f
  let ?a = "copy_files ''src'' ''darwin_common/src'' (Some ''*.c'') [] None None None"
  let ?b = "copy_files ''include'' ''darwin_common/include'' (Some ''*.h'') [] None None None"
  assume "f \<in> set ([?a, ?b] @ map copy_src_platform_files (selected osx ios tvos))"
  then consider "f = ?a" | "f = ?b"
    | p where "p \<in> set (selected osx ios tvos)" "f = copy_src_platform_files p" by auto
  then show "emits (\<lambda>w. w) (run_event (selected osx ios tvos)) f"
  proof cases
    case 1
    show ?thesis unfolding 1
      by (rule emits_mono [OF emits_copy_files [where N = "\<lambda>n. True"]])
         (simp_all add: run_event_def common_event_def)
  next
    case 2
    show ?thesis unfolding 2
      by (rule emits_mono [OF emits_copy_files [where N = "\<lambda>n. True"]])
         (simp_all add: run_event_def common_event_def)
  next
    case 3
    show ?thesis unfolding 3(2)
      by (rule emits_mono [OF emits_copy_src_platform_files]) (use 3(1) in \<open>auto simp: run_event_def\<close>)
  qed
qed

lemma emits_build_targets:
  "emits snd (run_event ps) (seq (map (build_target cmd) ps))"
proof (rule emits_seq)
  fix f
  assume "f \<in> set (map (build_target cmd) ps)"
  then obtain p where p: "p \<in> set ps" "f = build_target cmd p" by auto
  show "emits snd (run_event ps) f" unfolding p(2)
    by (rule emits_mono [OF emits_build_target]) (use p(1) in \<open>auto simp: run_event_def\<close>)
qed

text \<open>Every call of a run is a call of the common staging, of the unifier, or of a selected descriptor.\<close>

lemma generate_events:
  "\<exists>es. events (snd (generate_source_and_headers cmd osx ios tvos w)) = es @ events w \<and>
        list_all (run_event (selected osx ios tvos)) es"
proof -
  let ?P = "run_event (selected osx ios tvos)"
  obtain o1 w1 where s1: "stage_sources osx ios tvos w = (o1, w1)"
    by (cases "stage_sources osx ios tvos w")
  have "\<exists>es. events (snd (stage_sources osx ios tvos w)) = es @ events w \<and> list_all ?P es"
    by (rule emitsD [OF emits_stage_sources])
  with s1 obtain es1 where e1: "events w1 = es1 @ events w" "list_all ?P es1" by auto
  show ?thesis
  proof (cases o1)
    case (Raised e)
    with s1 e1 show ?thesis by (auto simp: generate_source_and_headers_def)
  next
    case Ok
    obtain o2 reg w2 where s2: "build_all cmd osx ios tvos w1 = (o2, reg, w2)"
      by (cases "build_all cmd osx ios tvos w1") auto
    have "\<exists>es. events (snd (snd (seq (map (build_target cmd) (selected osx ios tvos)) ([], w1))))
              = es @ events (snd (([], w1) :: registry \<times> world)) \<and> list_all ?P es"
      by (rule emitsD [OF emits_build_targets])
    with s2 obtain es2 where e2: "events w2 = es2 @ events w1" "list_all ?P es2"
      by (auto simp: build_all_def)
    show ?thesis
    proof (cases o2)
      case (Raised e)
      with s1 s2 Ok e1 e2 have "events (snd (generate_source_and_headers cmd osx ios tvos w))
          = (es2 @ es1) @ events w \<and> list_all ?P (es2 @ es1)"
        by (simp add: generate_source_and_headers_def)
      then show ?thesis by blast
    next
      case Ok2: Ok
      have k: "keys_slashless reg" using build_all_keys [of cmd osx ios tvos w1] s2 by simp
      have "\<exists>es. events (snd (unify_headers reg w2)) = es @ events w2 \<and>
                list_all common_event es"
        by (rule emitsD [OF emits_unify_headers [OF k]])
      then obtain es3 where
        e3: "events (snd (unify_headers reg w2)) = es3 @ events w2" "list_all common_event es3"
        by auto
      have "list_all ?P es3" using e3(2) by (auto simp: list_all_iff run_event_def)
      with s1 s2 Ok Ok2 e1 e2 e3 have
        "events (snd (generate_source_and_headers cmd osx ios tvos w))
          = (es3 @ es2 @ es1) @ events w \<and> list_all ?P (es3 @ es2 @ es1)"
        by (simp add: generate_source_and_headers_def)
      then show ?thesis by blast
    qed
  qed
qed

section \<open>A failing configure run\<close>

lemma orderly_Ok: "orderly c Ok es \<Longrightarrow> list_all (\<lambda>e. \<not> failed e) es"
  by (auto simp: orderly_def)

lemma orderly_append:
  "list_all (\<lambda>e. \<not> failed e) es1 \<Longrightarrow> orderly c out es2 \<Longrightarrow> orderly c out (es2 @ es1)"
  unfolding orderly_def by auto

lemma steadyD:
  "steady g c f \<Longrightarrow> cwd (g s) = c \<Longrightarrow>
   cwd (g (snd (f s))) = c \<and>
   (\<exists>es. events (g (snd (f s))) = es @ events (g s) \<and> orderly (CHR ''/'' # c) (fst (f s)) es)"
  by (simp add: steady_def)

lemma steady_seq:
  assumes "\<And>f. f \<in> set fs \<Longrightarrow> steady g c f"
  shows "steady g c (seq fs)"
  using assms
proof (induction fs)
  case Nil
  show ?case unfolding steady_def
    by (auto simp: orderly_def intro: exI [of _ "[]"])
next
  case (Cons f fs)
  have sf: "steady g c f" and sfs: "steady g c (seq fs)" using Cons by simp_all
  show ?case unfolding steady_def
  proof (intro allI impI)
    fix s
    assume c: "cwd (g s) = c"
    obtain out s1 where f: "f s = (out, s1)" by (cases "f s")
    from steadyD [OF sf c] f obtain es1 where
      1: "cwd (g s1) = c" "events (g s1) = es1 @ events (g s)" "orderly (CHR ''/'' # c) out es1"
      by auto
    show "cwd (g (snd (seq (f # fs) s))) = c \<and>
          (\<exists>es. events (g (snd (seq (f # fs) s))) = es @ events (g s) \<and>
                orderly (CHR ''/'' # c) (fst (seq (f # fs) s)) es)"
    proof (cases out)
      case Ok
      from steadyD [OF sfs 1(1)] obtain es2 where
        2: "cwd (g (snd (seq fs s1))) = c" "events (g (snd (seq fs s1))) = es2 @ events (g s1)"
           "orderly (CHR ''/'' # c) (fst (seq fs s1)) es2" by auto
      have "orderly (CHR ''/'' # c) (fst (seq fs s1)) (es2 @ es1)"
        using orderly_append [OF orderly_Ok 2(3)] 1(3) Ok by simp
      with f Ok 1 2 show ?thesis by auto
    next
      case (Raised e)
      with f 1 show ?thesis by auto
    qed
  qed
qed

lemma steady_emits:
  assumes "emits g P f" and "\<And>e. P e \<Longrightarrow> \<not> failed e"
    and "\<And>s. cwd (g (snd (f s))) = cwd (g s)"
  shows "steady g c f"
  unfolding steady_def
proof (intro allI impI conjI)
  fix s
  assume "cwd (g s) = c"
  then show "cwd (g (snd (f s))) = c" using assms(3) by simp
  from emitsD [OF assms(1), of s] obtain es where
    "events (g (snd (f s))) = es @ events (g s)" "list_all P es" by blast
  moreover from this assms(2) have "list_all (\<lambda>e. \<not> failed e) es" by (auto simp: list_all_iff)
  ultimately show "\<exists>es. events (g (snd (f s))) = es @ events (g s) \<and>
      orderly (CHR ''/'' # c) (fst (f s)) es"
    unfolding orderly_def by blast
qed

lemma staging_event_not_failed: "staging_event N src dst fs e \<Longrightarrow> \<not> failed e"
  by (auto simp: staging_event_def failed_def)

lemma steady_copy_files: "steady (\<lambda>w. w) c (copy_files src dst pat fl fs pre suf)"
  by (rule steady_emits [OF emits_copy_files [where N = "\<lambda>n. True"]])
     (simp_all add: staging_event_not_failed cwd_copy_files)

lemma steady_mkdir_p: "steady (\<lambda>w. w) c (mkdir_p p)"
  by (rule steady_emits [OF emits_mkdir_p]) (simp_all add: failed_def cwd_mkdir_p)

lemma steady_on_world: "steady (\<lambda>w. w) c f \<Longrightarrow> steady snd c (on_world f)"
  unfolding steady_def on_world_def by (auto split: prod.splits)

lemma steady_copy_src_platform_files: "steady (\<lambda>w. w) c (copy_src_platform_files p)"
  unfolding copy_src_platform_files_def Let_def
  by (rule steady_seq) (auto simp: steady_copy_files)

lemma steady_run_configure: "steady (\<lambda>w. w) c (run_configure cmd p)"
  unfolding steady_def
proof (intro allI impI conjI)
  fix w :: world
  assume c: "cwd w = c"
  show "cwd (snd (run_configure cmd p w)) = c" using c by (simp add: cwd_run_configure)
  from run_configure_cases [of cmd p w]
  show "\<exists>es. events (snd (run_configure cmd p w)) = es @ events w \<and>
           orderly (CHR ''/'' # c) (fst (run_configure cmd p w)) es"
    using c by (auto simp: orderly_def failed_def os_getcwd_def)
qed

lemma steady_record_headers: "steady snd c (record_headers p src)"
  by (rule steady_emits [OF emits_record_headers [where P = "\<lambda>e. False"]])
     (simp_all add: record_headers_def)

lemma steady_build_target: "steady snd c (build_target cmd p)"
  unfolding build_target_def Let_def
  by (rule steady_seq)
     (auto intro!: steady_on_world steady_mkdir_p steady_run_configure steady_copy_files
        steady_record_headers)

lemma steady_write_umbrella: "steady (\<lambda>w. w) c (write_umbrella item)"
proof -
  have em: "emits (\<lambda>w. w) (\<lambda>e. \<exists>q. e = Open_write q) (write_umbrella item)"
    unfolding write_umbrella_def Let_def
    by (rule emits_seq)
       (auto intro!: emits_mono [OF emits_open_write]
          intro: emitsI [where f = "\<lambda>w. (Ok, put_file _ _ w)"] exI [of _ "[]"])
  have cw: "cwd (snd (write_umbrella item w)) = cwd w" for w
    unfolding write_umbrella_def Let_def
    by (rule seq_proj) (auto simp: cwd_open_write)
  show ?thesis by (rule steady_emits [OF em _ cw]) (auto simp: failed_def)
qed

lemma steady_unify_headers: "steady (\<lambda>w. w) c (unify_headers reg)"
  unfolding unify_headers_def
  by (rule steady_seq) (auto intro: steady_mkdir_p steady_write_umbrella)

lemma steady_stage_sources: "steady (\<lambda>w. w) c (stage_sources osx ios tvos)"
  unfolding stage_sources_def
  by (rule steady_seq) (auto intro: steady_copy_files steady_copy_src_platform_files)

lemma generate_orderly:
  "\<exists>es. events (snd (generate_source_and_headers cmd osx ios tvos w)) = es @ events w \<and>
        orderly (os_getcwd w) (fst (generate_source_and_headers cmd osx ios tvos w)) es"
proof -
  let ?c = "cwd w"
  obtain o1 w1 where s1: "stage_sources osx ios tvos w = (o1, w1)"
    by (cases "stage_sources osx ios tvos w")
  from steadyD [OF steady_stage_sources, of w ?c osx ios tvos] s1 obtain es1 where
    e1: "cwd w1 = ?c" "events w1 = es1 @ events w" "orderly (CHR ''/'' # ?c) o1 es1" by auto
  show ?thesis
  proof (cases o1)
    case (Raised e)
    with s1 e1 show ?thesis by (auto simp: generate_source_and_headers_def os_getcwd_def)
  next
    case Ok
    obtain o2 reg w2 where s2: "build_all cmd osx ios tvos w1 = (o2, reg, w2)"
      by (cases "build_all cmd osx ios tvos w1") auto
    have "steady snd ?c (seq (map (build_target cmd) (selected osx ios tvos)))"
      by (rule steady_seq) (auto intro: steady_build_target)
    from steadyD [OF this, of "([], w1)"] e1(1) s2 obtain es2 where
      e2: "cwd w2 = ?c" "events w2 = es2 @ events w1" "orderly (CHR ''/'' # ?c) o2 es2"
      by (auto simp: build_all_def)
    have c1: "list_all (\<lambda>e. \<not> failed e) es1" using e1(3) Ok by (auto dest: orderly_Ok)
    show ?thesis
    proof (cases o2)
      case (Raised e)
      have "orderly (CHR ''/'' # ?c) o2 (es2 @ es1)" by (rule orderly_append [OF c1 e2(3)])
      with s1 s2 Ok Raised e1 e2 show ?thesis
        by (auto simp: generate_source_and_headers_def os_getcwd_def)
    next
      case Ok2: Ok
      from steadyD [OF steady_unify_headers e2(1), of reg] obtain es3 where
        e3: "events (snd (unify_headers reg w2)) = es3 @ events w2"
            "orderly (CHR ''/'' # ?c) (fst (unify_headers reg w2)) es3" by auto
      have c2: "list_all (\<lambda>e. \<not> failed e) (es2 @ es1)"
        using c1 e2(3) Ok2 by (auto dest: orderly_Ok)
      have "orderly (CHR ''/'' # ?c) (fst (unify_headers reg w2)) (es3 @ es2 @ es1)"
        by (rule orderly_append [OF c2 e3(2)])
      with s1 s2 Ok Ok2 e1 e2 e3 show ?thesis
        by (auto simp: generate_source_and_headers_def os_getcwd_def)
    qed
  qed
qed

text \<open>
  Claim C4. When a configure run of a generation exits with a non-zero status, the
  generation ends with \<open>CalledProcessError\<close> of that status, and the only call the script
  issues after the failed run is the return to its start directory: no later descriptor
  is built (no directory is made, no command is run) and the header unifier does not
  run (no file is opened for writing).
\<close>

theorem configure_failure_aborts:
  assumes "new_events w (snd (generate_source_and_headers cmd generate_osx generate_ios generate_tvos w))
             = later @ Check_call c argv env status # earlier"
    and "status \<noteq> 0"
  shows "fst (generate_source_and_headers cmd generate_osx generate_ios generate_tvos w)
           = Raised (CalledProcessError status) \<and>
         later = [Chdir (os_getcwd w)]"
proof -
  let ?r = "generate_source_and_headers cmd generate_osx generate_ios generate_tvos w"
  from generate_orderly [of cmd generate_osx generate_ios generate_tvos w] obtain es where
    es: "events (snd ?r) = es @ events w" "orderly (os_getcwd w) (fst ?r) es" by blast
  have n: "es = later @ Check_call c argv env status # earlier"
    using assms(1) new_events_append [OF es(1)] by simp
  have f: "failed (Check_call c argv env status)" using assms(2) by (simp add: failed_def)
  then have "\<not> list_all (\<lambda>e. \<not> failed e) es" unfolding n by simp
  with es(2) obtain c' argv' env' status' rest where
    r: "es = Chdir (os_getcwd w) # Check_call c' argv' env' status' # rest"
       "list_all (\<lambda>e. \<not> failed e) rest" "fst ?r = Raised (CalledProcessError status')"
    unfolding orderly_def by blast
  show ?thesis
  proof (cases later)
    case Nil
    with n r(1) show ?thesis by simp
  next
    case (Cons a later')
    with n r(1) have l: "later' @ Check_call c argv env status # earlier
                          = Check_call c' argv' env' status' # rest" and a: "a = Chdir (os_getcwd w)"
      by simp_all
    show ?thesis
    proof (cases later')
      case Nil
      with l r(3) a Cons show ?thesis by simp
    next
      case (Cons b later'')
      with l have "Check_call c argv env status \<in> set rest" by auto
      with r(2) f show ?thesis by (auto simp: list_all_iff)
    qed
  qed
qed

theorem configure_failure_aborts_witness:
  "take 2 (new_events all_sources
      (snd (generate_source_and_headers (example_configure 1) True False False all_sources)))
   = [Chdir ''/work'',
      Check_call ''/work/build_macosx-x86_64''
        [''../configure'', ''-host'', ''x86_64-apple-darwin10'']
        [(''CC'', ''xcrun -sdk macosx clang -arch x86_64''),
         (''LD'', ''xcrun -sdk macosx ld -arch x86_64''),
         (''CFLAGS'', ''-mmacosx-version-min=10.6 -fembed-bitcode'')] 1] \<and>
   fst (generate_source_and_headers (example_configure 1) True False False all_sources)
   = Raised (CalledProcessError 1)"
proof -
  let ?r = "generate_source_and_headers (example_configure 1) True False False all_sources"
  let ?cc = "Check_call ''/work/build_macosx-x86_64''
        [''../configure'', ''-host'', ''x86_64-apple-darwin10'']
        [(''CC'', ''xcrun -sdk macosx clang -arch x86_64''),
         (''LD'', ''xcrun -sdk macosx ld -arch x86_64''),
         (''CFLAGS'', ''-mmacosx-version-min=10.6 -fembed-bitcode'')] 1"
  have t: "take 2 (new_events all_sources (snd ?r)) = [Chdir ''/work'', ?cc]"
    by code_simp
  have "new_events all_sources (snd ?r)
          = take 2 (new_events all_sources (snd ?r)) @ drop 2 (new_events all_sources (snd ?r))"
    by simp
  then have n: "new_events all_sources (snd ?r)
          = [Chdir ''/work''] @ ?cc # drop 2 (new_events all_sources (snd ?r))"
    unfolding t by simp
  have "fst ?r = Raised (CalledProcessError 1)"
    using configure_failure_aborts [OF n] by simp
  with t show ?thesis by simp
qed

section \<open>The names of staged files\<close>

lemma platforms_names_sound: "list_all names_sound platforms"
  by code_simp

lemma selected_subset: "set (selected osx ios tvos) \<subseteq> set platforms"
  by (auto simp: selected_def platforms_def)

lemma source_of_Nil [simp]: "source_of [] = None"
  by (simp add: source_of_def)

lemma source_of_append: "source_of es2 = None \<Longrightarrow> source_of (es1 @ es2) = source_of es1"
  by (cases es1) (auto simp: source_of_def split: list.splits event.splits)

lemma writes_append: "source_of es2 = None \<Longrightarrow> writes (es1 @ es2) = writes es1 @ writes es2"
  by (induction es1) (simp_all add: source_of_append split: event.splits)

lemma copyingD:
  "copying g Q f \<Longrightarrow>
   \<exists>es. events (g (snd (f s))) = es @ events (g s) \<and> list_all Q (writes es) \<and>
        (fst (f s) = Ok \<longrightarrow> source_of es = None)"
  by (simp add: copying_def)

lemma copying_mono: "copying g P f \<Longrightarrow> (\<And>x. P x \<Longrightarrow> Q x) \<Longrightarrow> copying g Q f"
  unfolding copying_def list_all_iff by blast

lemma copying_compose:
  assumes "events w1 = es1 @ events w" "list_all Q (writes es1)" "source_of es1 = None"
    and "events w2 = es2 @ events w1" "list_all Q (writes es2)" "out = Ok \<longrightarrow> source_of es2 = None"
  shows "\<exists>es. events w2 = es @ events w \<and> list_all Q (writes es) \<and>
              (out = Ok \<longrightarrow> source_of es = None)"
proof -
  have "events w2 = (es2 @ es1) @ events w" using assms(1,4) by simp
  moreover have "list_all Q (writes (es2 @ es1))"
    using assms(2,3,5) by (simp add: writes_append)
  moreover have "out = Ok \<longrightarrow> source_of (es2 @ es1) = None"
    using assms(3,6) by (simp add: source_of_append)
  ultimately show ?thesis by blast
qed

lemma copying_seq:
  assumes "\<And>f. f \<in> set fs \<Longrightarrow> copying g Q f"
  shows "copying g Q (seq fs)"
  using assms
proof (induction fs)
  case Nil
  show ?case unfolding copying_def by (auto intro: exI [of _ "[]"])
next
  case (Cons f fs)
  have cf: "copying g Q f" and cfs: "copying g Q (seq fs)" using Cons by simp_all
  show ?case unfolding copying_def
  proof
    fix s
    obtain out s1 where f: "f s = (out, s1)" by (cases "f s")
    from copyingD [OF cf, of s] f obtain es1 where
      1: "events (g s1) = es1 @ events (g s)" "list_all Q (writes es1)"
         "out = Ok \<longrightarrow> source_of es1 = None"
      by auto
    show "\<exists>es. events (g (snd (seq (f # fs) s))) = es @ events (g s) \<and>
               list_all Q (writes es) \<and> (fst (seq (f # fs) s) = Ok \<longrightarrow> source_of es = None)"
    proof (cases out)
      case Ok
      from copyingD [OF cfs, of s1] obtain es2 where
        2: "events (g (snd (seq fs s1))) = es2 @ events (g s1)" "list_all Q (writes es2)"
           "fst (seq fs s1) = Ok \<longrightarrow> source_of es2 = None" by auto
      from 1(3) Ok have n: "source_of es1 = None" by simp
      from copying_compose [OF 1(1,2) n 2] f Ok show ?thesis by simp
    next
      case (Raised e)
      with f 1 show ?thesis by auto
    qed
  qed
qed

lemma copying_on_world:
  assumes "copying (\<lambda>w. w) Q f"
  shows "copying snd Q (on_world f)"
  unfolding copying_def
proof
  fix s :: "registry \<times> world"
  obtain out w' where f: "f (snd s) = (out, w')" by (cases "f (snd s)")
  then have o: "on_world f s = (out, (fst s, w'))" by (simp add: on_world_def)
  from copyingD [OF assms, of "snd s"] f
  show "\<exists>es. events (snd (snd (on_world f s))) = es @ events (snd s) \<and>
             list_all Q (writes es) \<and> (fst (on_world f s) = Ok \<longrightarrow> source_of es = None)"
    unfolding o by simp
qed

lemma events_mkdir_p: "events (snd (mkdir_p p w)) = Makedirs p # events w"
  by (simp add: snd_mkdir_p os_makedirs_def Let_def)

lemma events_open_read: "events (snd (open_read p w)) = Open_read p # events w"
  by (simp add: open_read_def Let_def)

lemma events_open_write: "events (snd (open_write p w)) = Open_write p # events w"
  by (simp add: open_write_def Let_def)

lemma events_write_wrapped: "events (snd (write_wrapped a b pre suf w)) = events w"
  by (simp add: write_wrapped_def Let_def split: option.splits)

lemma copying_mkdir_p: "copying (\<lambda>w. w) Q (mkdir_p p)"
  unfolding copying_def
  by (intro allI, rule_tac x = "[Makedirs p]" in exI) (simp add: events_mkdir_p source_of_def)

lemma move_file_events:
  fixes src dst n fs pre suf w
  defines "i \<equiv> os_path_join src n" and "o' \<equiv> os_path_join dst (out_filename fs n)"
  defines "r \<equiv> move_file src dst n fs pre suf w"
  shows "(events (snd r) = Makedirs dst # events w \<and> fst r \<noteq> Ok) \<or>
         (events (snd r) = Open_read i # Makedirs dst # events w \<and> fst r \<noteq> Ok) \<or>
         events (snd r) = Open_write o' # Open_read i # Makedirs dst # events w"
proof -
  obtain o1 w1 where 1: "mkdir_p dst w = (o1, w1)" by (cases "mkdir_p dst w")
  have e1: "events w1 = Makedirs dst # events w" using events_mkdir_p [of dst w] 1 by simp
  show ?thesis
  proof (cases o1)
    case (Raised e)
    with 1 e1 show ?thesis by (simp add: r_def move_file_def)
  next
    case Ok
    obtain o2 w2 where 2: "open_read i w1 = (o2, w2)" by (cases "open_read i w1")
    have e2: "events w2 = Open_read i # events w1" using events_open_read [of i w1] 2 by simp
    show ?thesis
    proof (cases o2)
      case (Raised e)
      with 1 Ok 2 e1 e2 show ?thesis by (simp add: r_def move_file_def i_def)
    next
      case Ok2: Ok
      obtain o3 w3 where 3: "open_write o' w2 = (o3, w3)" by (cases "open_write o' w2")
      have e3: "events w3 = Open_write o' # events w2"
        using events_open_write [of o' w2] 3 by simp
      show ?thesis
      proof (cases o3)
        case (Raised e)
        with 1 Ok 2 Ok2 3 e1 e2 e3 show ?thesis
          by (simp add: r_def move_file_def i_def o'_def)
      next
        case Ok3: Ok
        obtain o4 w4 where 4: "write_wrapped i o' pre suf w3 = (o4, w4)"
          by (cases "write_wrapped i o' pre suf w3")
        have e4: "events w4 = events w3"
          using events_write_wrapped [of i o' pre suf w3] 4 by simp
        have "snd r = w4"
          using 1 Ok 2 Ok2 3 Ok3 4
          by (cases o4) (simp_all add: r_def move_file_def i_def o'_def)
        with e1 e2 e3 e4 show ?thesis by simp
      qed
    qed
  qed
qed

lemma copying_move_file:
  "copying (\<lambda>w. w)
     (\<lambda>x. x = (Some (os_path_join src n), os_path_join dst (out_filename fs n)))
     (move_file src dst n fs pre suf)"
  unfolding copying_def
proof
  fix w
  let ?i = "os_path_join src n" and ?o = "os_path_join dst (out_filename fs n)"
  let ?r = "move_file src dst n fs pre suf w"
  let ?Q = "\<lambda>x. x = (Some ?i, ?o)"
  from move_file_events [of src dst n fs pre suf w] consider
    (a) "events (snd ?r) = [Makedirs dst] @ events w" "fst ?r \<noteq> Ok"
  | (b) "events (snd ?r) = [Open_read ?i, Makedirs dst] @ events w" "fst ?r \<noteq> Ok"
  | (c) "events (snd ?r) = [Open_write ?o, Open_read ?i, Makedirs dst] @ events w"
    by auto
  then show "\<exists>es. events (snd ?r) = es @ events w \<and> list_all ?Q (writes es) \<and>
                 (fst ?r = Ok \<longrightarrow> source_of es = None)"
  proof cases
    case a
    show ?thesis by (rule exI [of _ "[Makedirs dst]"]) (use a in \<open>simp add: source_of_def\<close>)
  next
    case b
    show ?thesis by (rule exI [of _ "[Open_read ?i, Makedirs dst]"]) (use b in simp)
  next
    case c
    show ?thesis
      by (rule exI [of _ "[Open_write ?o, Open_read ?i, Makedirs dst]"])
         (use c in \<open>simp add: source_of_def\<close>)
  qed
qed

lemma copying_copy_files:
  assumes "\<And>w n. n \<in> set (list_files src pat fl w) \<Longrightarrow> N n"
  shows "copying (\<lambda>w. w) (staging_copy N src dst fs) (copy_files src dst pat fl fs pre suf)"
  unfolding copying_def
proof
  fix w
  have "copying (\<lambda>w. w) (staging_copy N src dst fs)
          (seq (map (\<lambda>filename. move_file src dst filename fs pre suf)
             (list_files src pat fl w)))"
  proof (rule copying_seq)
    fix f
    assume "f \<in> set (map (\<lambda>filename. move_file src dst filename fs pre suf)
                       (list_files src pat fl w))"
    then obtain n where n: "n \<in> set (list_files src pat fl w)"
      "f = move_file src dst n fs pre suf" by auto
    have "N n" "CHR ''/'' \<notin> set n" using n(1) assms list_files_slashless by blast+
    then show "copying (\<lambda>w. w) (staging_copy N src dst fs) f"
      unfolding n(2) by (intro copying_mono [OF copying_move_file]) (auto simp: staging_copy_def)
  qed
  from copyingD [OF this, of w]
  show "\<exists>es. events (snd (copy_files src dst pat fl fs pre suf w)) = es @ events w \<and>
            list_all (staging_copy N src dst fs) (writes es) \<and>
            (fst (copy_files src dst pat fl fs pre suf w) = Ok \<longrightarrow> source_of es = None)"
    by (simp add: copy_files_def)
qed

lemma staging_copy_common:
  "staging_copy N ''src'' ''darwin_common/src'' None x \<Longrightarrow> staged_as ps x"
  "staging_copy N ''include'' ''darwin_common/include'' None x \<Longrightarrow> staged_as ps x"
  unfolding staging_copy_def staged_as_def by (auto simp: out_filename_def truthy_def)

lemma staging_copy_platform:
  assumes "p \<in> set ps" "names_sound p" "staging_paths_apart p"
  shows "staging_copy (\<lambda>n. n \<in> set (map os_path_basename (src_files p)))
           (platform_src p) (platform_dst p) (Some (arch p)) x \<Longrightarrow> staged_as ps x"
    and "staging_copy (\<lambda>n. n \<in> set (map os_path_basename (hdr_files p)))
           (platform_src p) (platform_dst p) None x \<Longrightarrow> staged_as ps x"
    and "staging_copy N (build_dir_of p) (platform_include p) (Some (arch p)) x
           \<Longrightarrow> staged_as ps x"
    and "staging_copy N (os_path_join (build_dir_of p) ''include'') (platform_include p)
           (Some (arch p)) x \<Longrightarrow> staged_as ps x"
proof -
  have a: "arch p \<noteq> []" using assms(2) by (simp add: names_sound_def)
  have o: "out_filename (Some (arch p)) n = suffixed_name (arch p) n" for n
    using a by (auto simp: out_filename_def suffixed_name_def truthy_def Let_def)
  have b: "map os_path_basename (src_files p) = src_files p"
          "map os_path_basename (hdr_files p) = hdr_files p"
    using assms(3) unfolding staging_paths_apart_def Let_def by blast+
  have h: "suffixed_name (arch p) n = n" if "n \<in> set (hdr_files p)" for n
  proof -
    have "map os_path_basename (hdr_files p) = map (\<lambda>x. x) (hdr_files p)"
      using b(2) by simp
    then have "os_path_basename n = n" using that unfolding map_eq_conv by blast
    moreover have "os_path_basename n \<in> set [''internal.h'', ''internal64.h'', ''asmnames.h'']"
      using assms(2) that unfolding names_sound_def list_all_iff by blast
    ultimately have "n \<in> set [''internal.h'', ''internal64.h'', ''asmnames.h'']" by simp
    then show ?thesis by (auto simp: suffixed_name_def)
  qed
  show "staging_copy (\<lambda>n. n \<in> set (map os_path_basename (src_files p)))
           (platform_src p) (platform_dst p) (Some (arch p)) x \<Longrightarrow> staged_as ps x"
    unfolding staging_copy_def staged_as_def b o using assms(1) by blast
  show "staging_copy (\<lambda>n. n \<in> set (map os_path_basename (hdr_files p)))
           (platform_src p) (platform_dst p) None x \<Longrightarrow> staged_as ps x"
  proof -
    assume "staging_copy (\<lambda>n. n \<in> set (map os_path_basename (hdr_files p)))
           (platform_src p) (platform_dst p) None x"
    then obtain n where n: "n \<in> set (hdr_files p)" "CHR ''/'' \<notin> set n"
      "x = (Some (os_path_join (platform_src p) n), os_path_join (platform_dst p) n)"
      unfolding staging_copy_def b by (auto simp: out_filename_def truthy_def)
    from n(3) h [OF n(1)] have
      "x = (Some (os_path_join (platform_src p) n),
            os_path_join (platform_dst p) (suffixed_name (arch p) n))" by simp
    with n(1,2) assms(1) show "staged_as ps x" unfolding staged_as_def by blast
  qed
  show "staging_copy N (build_dir_of p) (platform_include p) (Some (arch p)) x
           \<Longrightarrow> staged_as ps x"
    unfolding staging_copy_def staged_as_def o using assms(1) by blast
  show "staging_copy N (os_path_join (build_dir_of p) ''include'') (platform_include p)
           (Some (arch p)) x \<Longrightarrow> staged_as ps x"
    unfolding staging_copy_def staged_as_def o using assms(1) by blast
qed

lemma copying_copy_src_platform_files:
  assumes "p \<in> set ps" "names_sound p" "staging_paths_apart p"
  shows "copying (\<lambda>w. w) (staged_as ps) (copy_src_platform_files p)"
  unfolding copy_src_platform_files_def Let_def
proof (rule copying_seq)
  fix f
  let ?a = "copy_files (os_path_join ''src'' (src_dir p))
              (os_path_join (os_path_join (directory p) ''src'') (src_dir p)) None (src_files p)
              (Some (arch p)) (Some (prefix p)) (Some (suffix p))"
  let ?b = "copy_files (os_path_join ''src'' (src_dir p))
              (os_path_join (os_path_join (directory p) ''src'') (src_dir p)) None (hdr_files p)
              None (Some (prefix p)) (Some (suffix p))"
  assume "f \<in> set [?a, ?b]"
  then consider "f = ?a" | "f = ?b" by auto
  then show "copying (\<lambda>w. w) (staged_as ps) f"
  proof cases
    case 1
    have "copying (\<lambda>w. w)
            (staging_copy (\<lambda>n. n \<in> set (map os_path_basename (src_files p)))
               (platform_src p) (platform_dst p) (Some (arch p))) ?a"
      unfolding platform_src_def platform_dst_def
      by (rule copying_copy_files) (auto dest: list_files_filelist)
    then show ?thesis unfolding 1
      by (rule copying_mono) (rule staging_copy_platform(1) [OF assms])
  next
    case 2
    have "copying (\<lambda>w. w)
            (staging_copy (\<lambda>n. n \<in> set (map os_path_basename (hdr_files p)))
               (platform_src p) (platform_dst p) None) ?b"
      unfolding platform_src_def platform_dst_def
      by (rule copying_copy_files) (auto dest: list_files_filelist)
    then show ?thesis unfolding 2
      by (rule copying_mono) (rule staging_copy_platform(2) [OF assms])
  qed
qed

lemma copying_run_configure: "copying (\<lambda>w. w) Q (run_configure cmd p)"
  unfolding copying_def
proof
  fix w
  from run_configure_cases [of cmd p w] obtain es where
    "events (snd (run_configure cmd p w)) = es @ events w"
    "(\<exists>c status. es = [Chdir (os_getcwd w),
         Check_call c [''../configure'', ''-host'', triple p] (build_env p) status,
         Chdir (build_dir_of p)]) \<or> es = [Chdir (os_getcwd w), Chdir (build_dir_of p)]"
    by blast
  then have "events (snd (run_configure cmd p w)) = es @ events w \<and> list_all Q (writes es) \<and>
             (fst (run_configure cmd p w) = Ok \<longrightarrow> source_of es = None)"
    by (auto simp: source_of_def)
  then show "\<exists>es. events (snd (run_configure cmd p w)) = es @ events w \<and>
                 list_all Q (writes es) \<and>
                 (fst (run_configure cmd p w) = Ok \<longrightarrow> source_of es = None)" ..
qed

lemma copying_record_headers: "copying snd Q (record_headers p src)"
  unfolding copying_def
  by (intro allI, rule_tac x = "[]" in exI) (simp add: record_headers_def)

lemma copying_build_target:
  assumes "p \<in> set ps" "names_sound p" "staging_paths_apart p"
  shows "copying snd (staged_as ps) (build_target cmd p)"
  unfolding build_target_def Let_def
proof (rule copying_seq)
  fix f
  let ?cp = "\<lambda>src. on_world (copy_files src (os_path_join (directory p) ''include'')
                            (Some ''*.h'') [] (Some (arch p)) (Some (prefix p)) (Some (suffix p)))"
  assume "f \<in> set ([on_world (mkdir_p (build_dir_of p)), on_world (run_configure cmd p)] @
           concat (map (\<lambda>src. [?cp src, record_headers p src])
             [build_dir_of p, os_path_join (build_dir_of p) ''include'']))"
  then consider "f = on_world (mkdir_p (build_dir_of p))" | "f = on_world (run_configure cmd p)"
    | "f = ?cp (build_dir_of p)" | "f = ?cp (os_path_join (build_dir_of p) ''include'')"
    | src where "f = record_headers p src"
    by auto
  then show "copying snd (staged_as ps) f"
  proof cases
    case 1
    show ?thesis unfolding 1 by (rule copying_on_world, rule copying_mkdir_p)
  next
    case 2
    show ?thesis unfolding 2 by (rule copying_on_world, rule copying_run_configure)
  next
    case 3
    have "copying (\<lambda>w. w)
            (staging_copy (\<lambda>n. True) (build_dir_of p) (platform_include p) (Some (arch p)))
            (copy_files (build_dir_of p) (os_path_join (directory p) ''include'')
               (Some ''*.h'') [] (Some (arch p)) (Some (prefix p)) (Some (suffix p)))"
      unfolding platform_include_def by (rule copying_copy_files) simp
    then show ?thesis unfolding 3
      by (intro copying_on_world, elim copying_mono) (rule staging_copy_platform(3) [OF assms])
  next
    case 4
    have "copying (\<lambda>w. w)
            (staging_copy (\<lambda>n. True) (os_path_join (build_dir_of p) ''include'')
               (platform_include p) (Some (arch p)))
            (copy_files (os_path_join (build_dir_of p) ''include'')
               (os_path_join (directory p) ''include'')
               (Some ''*.h'') [] (Some (arch p)) (Some (prefix p)) (Some (suffix p)))"
      unfolding platform_include_def by (rule copying_copy_files) simp
    then show ?thesis unfolding 4
      by (intro copying_on_world, elim copying_mono) (rule staging_copy_platform(4) [OF assms])
  next
    case 5
    show ?thesis unfolding 5 by (rule copying_record_headers)
  qed
qed

lemma events_write_umbrella:
  "events (snd (write_umbrella item w))
   = Open_write (os_path_join ''darwin_common/include'' (fst item)) # events w"
proof -
  let ?q = "os_path_join ''darwin_common/include'' (fst item)"
  obtain o1 w1 where 1: "open_write ?q w = (o1, w1)" by (cases "open_write ?q w")
  have e1: "events w1 = Open_write ?q # events w" using events_open_write [of ?q w] 1 by simp
  show ?thesis using 1 e1 by (cases o1) (simp_all add: write_umbrella_def Let_def)
qed

lemma copying_write_umbrella:
  assumes "CHR ''/'' \<notin> set (fst item)"
  shows "copying (\<lambda>w. w) (staged_as ps) (write_umbrella item)"
  unfolding copying_def
proof
  fix w
  let ?q = "os_path_join ''darwin_common/include'' (fst item)"
  have "staged_as ps (None, ?q)" using assms unfolding staged_as_def by blast
  then have "events (snd (write_umbrella item w)) = [Open_write ?q] @ events w \<and>
        list_all (staged_as ps) (writes [Open_write ?q]) \<and>
        (fst (write_umbrella item w) = Ok \<longrightarrow> source_of [Open_write ?q] = None)"
    by (simp add: events_write_umbrella source_of_def)
  then show "\<exists>es. events (snd (write_umbrella item w)) = es @ events w \<and>
        list_all (staged_as ps) (writes es) \<and>
        (fst (write_umbrella item w) = Ok \<longrightarrow> source_of es = None)" ..
qed

lemma copying_unify_headers:
  assumes "keys_slashless reg"
  shows "copying (\<lambda>w. w) (staged_as ps) (unify_headers reg)"
  unfolding unify_headers_def
proof (rule copying_seq)
  fix f
  assume "f \<in> set (mkdir_p ''darwin_common/include'' # map write_umbrella reg)"
  then consider "f = mkdir_p ''darwin_common/include''"
    | item where "item \<in> set reg" "f = write_umbrella item" by auto
  then show "copying (\<lambda>w. w) (staged_as ps) f"
  proof cases
    case 1
    show ?thesis unfolding 1 by (rule copying_mkdir_p)
  next
    case 2
    with assms have "CHR ''/'' \<notin> set (fst item)" unfolding keys_slashless_def by blast
    then show ?thesis unfolding 2 by (rule copying_write_umbrella)
  qed
qed

lemma selected_sound:
  assumes "p \<in> set (selected osx ios tvos)"
  shows "names_sound p" "staging_paths_apart p"
  using assms selected_subset [of osx ios tvos] platforms_names_sound platforms_apart
  unfolding list_all_iff by blast+

lemma copying_stage_sources:
  "copying (\<lambda>w. w) (staged_as (selected osx ios tvos)) (stage_sources osx ios tvos)"
  unfolding stage_sources_def
proof (rule copying_seq)
  fix f
  let ?a = "copy_files ''src'' ''darwin_common/src'' (Some ''*.c'') [] None None None"
  let ?b = "copy_files ''include'' ''darwin_common/include'' (Some ''*.h'') [] None None None"
  assume "f \<in> set ([?a, ?b] @ map copy_src_platform_files (selected osx ios tvos))"
  then consider "f = ?a" | "f = ?b"
    | p where "p \<in> set (selected osx ios tvos)" "f = copy_src_platform_files p" by auto
  then show "copying (\<lambda>w. w) (staged_as (selected osx ios tvos)) f"
  proof cases
    case 1
    show ?thesis unfolding 1
      by (rule copying_mono [OF copying_copy_files [where N = "\<lambda>n. True"]])
         (simp_all add: staging_copy_common)
  next
    case 2
    show ?thesis unfolding 2
      by (rule copying_mono [OF copying_copy_files [where N = "\<lambda>n. True"]])
         (simp_all add: staging_copy_common)
  next
    case 3
    show ?thesis unfolding 3(2)
      by (rule copying_copy_src_platform_files [OF 3(1) selected_sound [OF 3(1)]])
  qed
qed

lemma copying_build_targets:
  "copying snd (staged_as (selected osx ios tvos))
     (seq (map (build_target cmd) (selected osx ios tvos)))"
proof (rule copying_seq)
  fix f
  assume "f \<in> set (map (build_target cmd) (selected osx ios tvos))"
  then obtain p where p: "p \<in> set (selected osx ios tvos)" "f = build_target cmd p" by auto
  show "copying snd (staged_as (selected osx ios tvos)) f" unfolding p(2)
    by (rule copying_build_target [OF p(1) selected_sound [OF p(1)]])
qed

text \<open>Every file a run opens for writing is the copy of the file opened just before it,
  under the name the rule gives it, or an umbrella header.\<close>

lemma generate_copies:
  "\<exists>es. events (snd (generate_source_and_headers cmd osx ios tvos w)) = es @ events w \<and>
        list_all (staged_as (selected osx ios tvos)) (writes es)"
proof -
  let ?Q = "staged_as (selected osx ios tvos)"
  obtain o1 w1 where s1: "stage_sources osx ios tvos w = (o1, w1)"
    by (cases "stage_sources osx ios tvos w")
  have "copying (\<lambda>w. w) ?Q (stage_sources osx ios tvos)" by (rule copying_stage_sources)
  from copyingD [OF this, of w] s1 obtain es1 where
    e1: "events w1 = es1 @ events w" "list_all ?Q (writes es1)"
        "o1 = Ok \<longrightarrow> source_of es1 = None" by auto
  show ?thesis
  proof (cases o1)
    case (Raised e)
    with s1 e1 show ?thesis by (auto simp: generate_source_and_headers_def)
  next
    case Ok
    with e1(3) have n1: "source_of es1 = None" by simp
    obtain o2 reg w2 where s2: "build_all cmd osx ios tvos w1 = (o2, reg, w2)"
      by (cases "build_all cmd osx ios tvos w1") auto
    have "copying snd ?Q (seq (map (build_target cmd) (selected osx ios tvos)))"
      by (rule copying_build_targets)
    from copyingD [OF this, of "([], w1)"] s2 obtain es2 where
      e2: "events w2 = es2 @ events w1" "list_all ?Q (writes es2)"
          "o2 = Ok \<longrightarrow> source_of es2 = None"
      by (auto simp: build_all_def)
    from copying_compose [OF e1(1,2) n1 e2] obtain es12 where
      e12: "events w2 = es12 @ events w" "list_all ?Q (writes es12)"
           "o2 = Ok \<longrightarrow> source_of es12 = None" by blast
    show ?thesis
    proof (cases o2)
      case (Raised e)
      with s1 s2 Ok e12 show ?thesis by (auto simp: generate_source_and_headers_def)
    next
      case Ok2: Ok
      with e12(3) have n2: "source_of es12 = None" by simp
      have k: "keys_slashless reg" using build_all_keys [of cmd osx ios tvos w1] s2 by simp
      have "copying (\<lambda>w. w) ?Q (unify_headers reg)" by (rule copying_unify_headers [OF k])
      from copyingD [OF this] obtain es3 where
        e3: "events (snd (unify_headers reg w2)) = es3 @ events w2" "list_all ?Q (writes es3)"
            "fst (unify_headers reg w2) = Ok \<longrightarrow> source_of es3 = None" by blast
      from copying_compose [OF e12(1,2) n2 e3] s1 s2 Ok Ok2 show ?thesis
        by (auto simp: generate_source_and_headers_def)
    qed
  qed
qed

lemma join_slashless:
  "CHR ''/'' \<notin> set n \<Longrightarrow> d \<noteq> [] \<Longrightarrow> last d \<noteq> CHR ''/'' \<Longrightarrow> os_path_join d n = d @ ''/'' @ n"
  by (cases n) (auto simp: os_path_join_def)

lemma join_build_dir:
  assumes "CHR ''/'' \<notin> set n"
  shows "\<exists>r. os_path_join (build_dir_of p) n = CHR ''b'' # r"
    and "\<exists>r. os_path_join (os_path_join (build_dir_of p) ''include'') n = CHR ''b'' # r"
proof -
  have s: "\<exists>r. os_path_join (CHR ''b'' # d) m = CHR ''b'' # r" if "CHR ''/'' \<notin> set m" for d m
    using that by (cases m) (auto simp: os_path_join_def)
  have b: "build_dir_of p = CHR ''b'' # (''uild_'' @ (sdk p @ ''-'' @ arch p))"
    by (simp add: build_dir_of_def)
  show "\<exists>r. os_path_join (build_dir_of p) n = CHR ''b'' # r"
    unfolding b by (rule s [OF assms])
  have "\<exists>r. os_path_join (build_dir_of p) ''include'' = CHR ''b'' # r"
    unfolding b by (rule s) simp
  then obtain r where r: "os_path_join (build_dir_of p) ''include'' = CHR ''b'' # r" ..
  show "\<exists>r. os_path_join (os_path_join (build_dir_of p) ''include'') n = CHR ''b'' # r"
    unfolding r by (rule s [OF assms])
qed

lemma platform_sources:
  "list_all (\<lambda>p. platform_src p \<in> set [''src/x86'', ''src/arm'', ''src/aarch64'']) platforms"
  by code_simp

text \<open>The rule leaves no choice for a common source file: whatever is staged from
  \<^verbatim>\<open>src/n\<close> is written to \<^verbatim>\<open>darwin_common/src/n\<close>.\<close>

lemma common_source_keeps_name:
  assumes st: "staged_as ps (Some (os_path_join ''src'' n), q)"
    and n: "CHR ''/'' \<notin> set n"
    and ps: "set ps \<subseteq> set platforms"
  shows "q = os_path_join ''darwin_common/src'' n"
proof -
  have j: "os_path_join ''src'' m = ''src/'' @ m" if "CHR ''/'' \<notin> set m" for m
    using join_slashless [OF that, of "''src''"] by simp
  have i: "os_path_join ''include'' m = ''include/'' @ m" if "CHR ''/'' \<notin> set m" for m
    using join_slashless [OF that, of "''include''"] by simp
  from st consider
    (a) m where "CHR ''/'' \<notin> set m" "os_path_join ''src'' m = os_path_join ''src'' n"
        "q = os_path_join ''darwin_common/src'' m"
  | (b) m where "CHR ''/'' \<notin> set m" "os_path_join ''include'' m = os_path_join ''src'' n"
  | (c) p m where "p \<in> set ps" "CHR ''/'' \<notin> set m"
        "os_path_join (platform_src p) m = os_path_join ''src'' n"
  | (d) p m where "CHR ''/'' \<notin> set m"
        "os_path_join (build_dir_of p) m = os_path_join ''src'' n"
  | (e) p m where "CHR ''/'' \<notin> set m"
        "os_path_join (os_path_join (build_dir_of p) ''include'') m = os_path_join ''src'' n"
    unfolding staged_as_def by (elim disjE exE bexE conjE; simp; blast)
  then show ?thesis
  proof cases
    case a
    from a(2) have "m = n" by (simp add: j [OF a(1)] j [OF n])
    with a(3) show ?thesis by simp
  next
    case b
    then show ?thesis by (simp add: i [OF b(1)] j [OF n])
  next
    case c
    from c(1) ps platform_sources
    have "platform_src p \<in> set [''src/x86'', ''src/arm'', ''src/aarch64'']"
      unfolding list_all_iff by blast
    then consider "platform_src p = ''src/x86''" | "platform_src p = ''src/arm''"
      | "platform_src p = ''src/aarch64''" by auto
    then have "CHR ''/'' \<in> set n"
    proof cases
      case 1
      from c(3) have "n = ''x86/'' @ m"
        unfolding 1 j [OF n] using join_slashless [OF c(2), of "''src/x86''"] by simp
      then show ?thesis by simp
    next
      case 2
      from c(3) have "n = ''arm/'' @ m"
        unfolding 2 j [OF n] using join_slashless [OF c(2), of "''src/arm''"] by simp
      then show ?thesis by simp
    next
      case 3
      from c(3) have "n = ''aarch64/'' @ m"
        unfolding 3 j [OF n] using join_slashless [OF c(2), of "''src/aarch64''"] by simp
      then show ?thesis by simp
    qed
    with n show ?thesis by simp
  next
    case d
    from join_build_dir(1) [OF d(1), of p] d(2) show ?thesis by (auto simp: j [OF n])
  next
    case e
    from join_build_dir(2) [OF e(1), of p] e(2) show ?thesis by (auto simp: j [OF n])
  qed
qed

lemma common_include_keeps_name:
  assumes st: "staged_as ps (Some (os_path_join ''include'' n), q)"
    and n: "CHR ''/'' \<notin> set n"
    and ps: "set ps \<subseteq> set platforms"
  shows "q = os_path_join ''darwin_common/include'' n"
proof -
  have j: "os_path_join ''src'' m = ''src/'' @ m" if "CHR ''/'' \<notin> set m" for m
    using join_slashless [OF that, of "''src''"] by simp
  have i: "os_path_join ''include'' m = ''include/'' @ m" if "CHR ''/'' \<notin> set m" for m
    using join_slashless [OF that, of "''include''"] by simp
  from st consider
    (a) m where "CHR ''/'' \<notin> set m" "os_path_join ''src'' m = os_path_join ''include'' n"
  | (b) m where "CHR ''/'' \<notin> set m" "os_path_join ''include'' m = os_path_join ''include'' n"
        "q = os_path_join ''darwin_common/include'' m"
  | (c) p m where "p \<in> set ps" "CHR ''/'' \<notin> set m"
        "os_path_join (platform_src p) m = os_path_join ''include'' n"
  | (d) p m where "CHR ''/'' \<notin> set m"
        "os_path_join (build_dir_of p) m = os_path_join ''include'' n"
  | (e) p m where "CHR ''/'' \<notin> set m"
        "os_path_join (os_path_join (build_dir_of p) ''include'') m = os_path_join ''include'' n"
    unfolding staged_as_def by (elim disjE exE bexE conjE; simp; blast)
  then show ?thesis
  proof cases
    case a
    then show ?thesis by (simp add: i [OF n] j [OF a(1)])
  next
    case b
    from b(2) have "m = n" by (simp add: i [OF b(1)] i [OF n])
    with b(3) show ?thesis by simp
  next
    case c
    from c(1) ps platform_sources
    have "platform_src p \<in> set [''src/x86'', ''src/arm'', ''src/aarch64'']"
      unfolding list_all_iff by blast
    then have "\<exists>r. os_path_join (platform_src p) m = CHR ''s'' # r"
      using join_slashless [OF c(2), of "platform_src p"] by auto
    with c(3) show ?thesis by (auto simp: i [OF n])
  next
    case d
    from join_build_dir(1) [OF d(1), of p] d(2) show ?thesis by (auto simp: i [OF n])
  next
    case e
    from join_build_dir(2) [OF e(1), of p] e(2) show ?thesis by (auto simp: i [OF n])
  qed
qed

lemma allow_listed_name:
  "n \<in> set [''internal.h'', ''internal64.h'', ''asmnames.h''] \<Longrightarrow> a \<noteq> [] \<Longrightarrow>
   out_filename (Some a) n = n"
  by (auto simp: out_filename_def truthy_def)

lemma two_writers:
  assumes n: "n \<in> set [''internal.h'', ''internal64.h'', ''asmnames.h'']"
    and a: "a1 \<noteq> []" "a2 \<noteq> []"
    and d: "os_path_join dst n \<noteq> os_path_join src1 n" "os_path_join dst n \<noteq> os_path_join src2 n"
    and m1: "move_file src1 dst n (Some a1) pre1 suf1 w0 = (Ok, w1)"
    and m2: "move_file src2 dst n (Some a2) pre2 suf2 w1 = (Ok, w2)"
  shows "\<exists>c1 c2.
           read_file w0 (os_path_join src1 n) = Some c1 \<and>
           read_file w1 (os_path_join dst n)
             = Some (text_of pre1 @ universal_newlines c1 @ text_of suf1) \<and>
           read_file w1 (os_path_join src2 n) = Some c2 \<and>
           read_file w2 (os_path_join dst n)
             = Some (text_of pre2 @ universal_newlines c2 @ text_of suf2)"
proof -
  have o1: "out_filename (Some a1) n = n" and o2: "out_filename (Some a2) n = n"
    by (rule allow_listed_name [OF n a(1)], rule allow_listed_name [OF n a(2)])
  from move_file_Ok [OF m1] d(1) obtain c1 where
    c1: "read_file w0 (os_path_join src1 n) = Some c1"
        "read_file w1 = (read_file w0)(os_path_join dst n \<mapsto>
           text_of pre1 @ universal_newlines c1 @ text_of suf1)"
    unfolding o1 by auto
  from move_file_Ok [OF m2] d(2) obtain c2 where
    c2: "read_file w1 (os_path_join src2 n) = Some c2"
        "read_file w2 = (read_file w1)(os_path_join dst n \<mapsto>
           text_of pre2 @ universal_newlines c2 @ text_of suf2)"
    unfolding o2 by auto
  from c1 c2 show ?thesis by simp
qed

text \<open>
  Claim C3, as amended. In a generation, every file opened for writing right after a file
  was opened for reading is a staged copy of that file (\<open>move_file\<close> opens the two in this
  order), and its name follows from the name \<open>n\<close> of the file it is copied from:
  \<^item> a common file, \<^verbatim>\<open>src/n\<close> or \<^verbatim>\<open>include/n\<close>, is written to \<^verbatim>\<open>darwin_common/src/n\<close> or
    \<^verbatim>\<open>darwin_common/include/n\<close>: the name is kept, no architecture is added, whatever the
    name is;
  \<^item> a source or header file \<open>n\<close> of a selected descriptor, and a header \<open>n\<close> of its build
    directory, is written under stem of \<open>n\<close> + \<^verbatim>\<open>_\<close> + architecture + extension of \<open>n\<close>,
    except that \<^verbatim>\<open>internal.h\<close>, \<^verbatim>\<open>internal64.h\<close> and \<^verbatim>\<open>asmnames.h\<close> keep their names.
  Every other file the run opens for writing is an umbrella header in
  \<^verbatim>\<open>darwin_common/include\<close>. When two architectures stage one of the three exempted names
  into the same directory, both write the same path and the file holds what the second
  one wrote.
\<close>

theorem staged_names:
  "(\<forall>x\<in>set (writes (new_events w
        (snd (generate_source_and_headers cmd generate_osx generate_ios generate_tvos w)))).
      staged_as (selected generate_osx generate_ios generate_tvos) x) \<and>
   (CHR ''/'' \<notin> set m \<longrightarrow>
      ((Some (os_path_join ''src'' m), q) \<in> set (writes (new_events w
          (snd (generate_source_and_headers cmd generate_osx generate_ios generate_tvos w))))
       \<longrightarrow> q = os_path_join ''darwin_common/src'' m) \<and>
      ((Some (os_path_join ''include'' m), q) \<in> set (writes (new_events w
          (snd (generate_source_and_headers cmd generate_osx generate_ios generate_tvos w))))
       \<longrightarrow> q = os_path_join ''darwin_common/include'' m)) \<and>
   (n \<in> set [''internal.h'', ''internal64.h'', ''asmnames.h''] \<and> a1 \<noteq> [] \<and> a2 \<noteq> [] \<and>
    os_path_join dst n \<noteq> os_path_join src1 n \<and> os_path_join dst n \<noteq> os_path_join src2 n \<and>
    move_file src1 dst n (Some a1) pre1 suf1 w0 = (Ok, w1) \<and>
    move_file src2 dst n (Some a2) pre2 suf2 w1 = (Ok, w2) \<longrightarrow>
    (\<exists>c1 c2.
       read_file w0 (os_path_join src1 n) = Some c1 \<and>
       read_file w1 (os_path_join dst n)
         = Some (text_of pre1 @ universal_newlines c1 @ text_of suf1) \<and>
       read_file w1 (os_path_join src2 n) = Some c2 \<and>
       read_file w2 (os_path_join dst n)
         = Some (text_of pre2 @ universal_newlines c2 @ text_of suf2)))"
proof -
  let ?ps = "selected generate_osx generate_ios generate_tvos"
  let ?W = "writes (new_events w
        (snd (generate_source_and_headers cmd generate_osx generate_ios generate_tvos w)))"
  from generate_copies [of cmd generate_osx generate_ios generate_tvos w] obtain es where
    es: "events (snd (generate_source_and_headers cmd generate_osx generate_ios generate_tvos w))
           = es @ events w"
        "list_all (staged_as ?ps) (writes es)"
    by blast
  from es(2) new_events_append [OF es(1)]
  have 1: "\<forall>x\<in>set ?W. staged_as ?ps x" by (simp add: list_all_iff)
  have ps: "set ?ps \<subseteq> set platforms" by (rule selected_subset)
  have 2: "q = os_path_join ''darwin_common/src'' m"
    if "CHR ''/'' \<notin> set m" "(Some (os_path_join ''src'' m), q) \<in> set ?W"
    using 1 that(2) by (intro common_source_keeps_name [OF _ that(1) ps]) blast
  have 3: "q = os_path_join ''darwin_common/include'' m"
    if "CHR ''/'' \<notin> set m" "(Some (os_path_join ''include'' m), q) \<in> set ?W"
    using 1 that(2) by (intro common_include_keeps_name [OF _ that(1) ps]) blast
  have 4: "\<exists>c1 c2.
       read_file w0 (os_path_join src1 n) = Some c1 \<and>
       read_file w1 (os_path_join dst n)
         = Some (text_of pre1 @ universal_newlines c1 @ text_of suf1) \<and>
       read_file w1 (os_path_join src2 n) = Some c2 \<and>
       read_file w2 (os_path_join dst n)
         = Some (text_of pre2 @ universal_newlines c2 @ text_of suf2)"
    if h: "n \<in> set [''internal.h'', ''internal64.h'', ''asmnames.h''] \<and> a1 \<noteq> [] \<and> a2 \<noteq> [] \<and>
      os_path_join dst n \<noteq> os_path_join src1 n \<and> os_path_join dst n \<noteq> os_path_join src2 n \<and>
      move_file src1 dst n (Some a1) pre1 suf1 w0 = (Ok, w1) \<and>
      move_file src2 dst n (Some a2) pre2 suf2 w1 = (Ok, w2)"
    using h by (intro two_writers [where ?a1.0 = a1 and ?a2.0 = a2]) simp_all
  from 1 2 3 4 show ?thesis by blast
qed

text \<open>A run of the desktop family over the example sources: the files it writes, newest
  first, each with the file it is copied from.\<close>

lemma desktop_run_writes:
  "writes (new_events all_sources
     (snd (generate_source_and_headers (example_configure 0) True False False all_sources)))
   = [(None, ''darwin_common/include/ffi.h''),
      (None, ''darwin_common/include/fficonfig.h''),
      (Some ''build_macosx-arm64/include/ffi.h'', ''darwin_osx/include/ffi_arm64.h''),
      (Some ''build_macosx-arm64/fficonfig.h'', ''darwin_osx/include/fficonfig_arm64.h''),
      (Some ''build_macosx-x86_64/include/ffi.h'', ''darwin_osx/include/ffi_x86_64.h''),
      (Some ''build_macosx-x86_64/fficonfig.h'', ''darwin_osx/include/fficonfig_x86_64.h''),
      (Some ''src/aarch64/internal.h'', ''darwin_osx/src/aarch64/internal.h''),
      (Some ''src/aarch64/ffi.c'', ''darwin_osx/src/aarch64/ffi_arm64.c''),
      (Some ''src/aarch64/sysv.S'', ''darwin_osx/src/aarch64/sysv_arm64.S''),
      (Some ''src/x86/asmnames.h'', ''darwin_osx/src/x86/asmnames.h''),
      (Some ''src/x86/internal64.h'', ''darwin_osx/src/x86/internal64.h''),
      (Some ''src/x86/win64.S'', ''darwin_osx/src/x86/win64_x86_64.S''),
      (Some ''src/x86/ffiw64.c'', ''darwin_osx/src/x86/ffiw64_x86_64.c''),
      (Some ''src/x86/ffi64.c'', ''darwin_osx/src/x86/ffi64_x86_64.c''),
      (Some ''src/x86/unix64.S'', ''darwin_osx/src/x86/unix64_x86_64.S''),
      (Some ''include/ffi_common.h'', ''darwin_common/include/ffi_common.h''),
      (Some ''src/prep_cif.c'', ''darwin_common/src/prep_cif.c'')]"
  by code_simp

lemma desktop_run_writes_sysv:
  "Open_write ''darwin_osx/src/aarch64/sysv_arm64.S'' \<in> set (new_events all_sources
     (snd (generate_source_and_headers (example_configure 0) True False False all_sources)))"
  by code_simp

theorem staged_names_witness:
  "(Some ''src/aarch64/sysv.S'', ''darwin_osx/src/aarch64/sysv_arm64.S'')
     \<in> set (writes (new_events all_sources
         (snd (generate_source_and_headers (example_configure 0) True False False all_sources)))) \<and>
   staged_as (selected True False False)
     (Some ''src/aarch64/sysv.S'', ''darwin_osx/src/aarch64/sysv_arm64.S'') \<and>
   (Some ''src/prep_cif.c'', ''darwin_common/src/prep_cif.c'')
     \<in> set (writes (new_events all_sources
         (snd (generate_source_and_headers (example_configure 0) True False False all_sources)))) \<and>
   staged_as (selected True False False)
     (Some ''src/prep_cif.c'', ''darwin_common/src/prep_cif.c'') \<and>
   os_path_join ''src'' ''prep_cif.c'' = ''src/prep_cif.c'' \<and>
   os_path_join ''darwin_common/src'' ''prep_cif.c'' = ''darwin_common/src/prep_cif.c'' \<and>
   suffixed_name ''arm64'' ''sysv.S'' = ''sysv_arm64.S'' \<and>
   suffixed_name ''arm64'' ''internal.h'' = ''internal.h'' \<and>
   fst (move_file ''src/arm'' ''darwin_ios/include'' ''internal.h'' (Some ''armv7'')
          (Some ''<'') (Some ''>'') all_sources) = Ok \<and>
   fst (move_file ''src/aarch64'' ''darwin_ios/include'' ''internal.h'' (Some ''arm64'')
          (Some ''['') (Some '']'')
          (snd (move_file ''src/arm'' ''darwin_ios/include'' ''internal.h'' (Some ''armv7'')
                  (Some ''<'') (Some ''>'') all_sources))) = Ok \<and>
   read_file (snd (move_file ''src/arm'' ''darwin_ios/include'' ''internal.h'' (Some ''armv7'')
                  (Some ''<'') (Some ''>'') all_sources)) ''darwin_ios/include/internal.h''
   = Some ''<i7>'' \<and>
   read_file
     (snd (move_file ''src/aarch64'' ''darwin_ios/include'' ''internal.h'' (Some ''arm64'')
          (Some ''['') (Some '']'')
          (snd (move_file ''src/arm'' ''darwin_ios/include'' ''internal.h'' (Some ''armv7'')
                  (Some ''<'') (Some ''>'') all_sources))))
     ''darwin_ios/include/internal.h''
   = Some ''[i8]''"
proof -
  let ?run = "generate_source_and_headers (example_configure 0) True False False all_sources"
  let ?m1 = "move_file ''src/arm'' ''darwin_ios/include'' ''internal.h'' (Some ''armv7'')
               (Some ''<'') (Some ''>'') all_sources"
  let ?m2 = "move_file ''src/aarch64'' ''darwin_ios/include'' ''internal.h'' (Some ''arm64'')
               (Some ''['') (Some '']'') (snd ?m1)"
  note t = staged_names [where cmd = "example_configure 0" and w = all_sources
      and generate_osx = True and generate_ios = False and generate_tvos = False
      and m = "''prep_cif.c''" and q = "''darwin_common/src/prep_cif.c''"
      and n = "''internal.h''" and ?a1.0 = "''armv7''" and ?a2.0 = "''arm64''"
      and dst = "''darwin_ios/include''" and ?src1.0 = "''src/arm''"
      and ?src2.0 = "''src/aarch64''"
      and ?pre1.0 = "Some ''<''" and ?suf1.0 = "Some ''>''"
      and ?pre2.0 = "Some ''[''" and ?suf2.0 = "Some '']''"
      and ?w0.0 = all_sources and ?w1.0 = "snd ?m1" and ?w2.0 = "snd ?m2"]
  have m: "(Some ''src/aarch64/sysv.S'', ''darwin_osx/src/aarch64/sysv_arm64.S'')
             \<in> set (writes (new_events all_sources (snd ?run)))"
          "(Some ''src/prep_cif.c'', ''darwin_common/src/prep_cif.c'')
             \<in> set (writes (new_events all_sources (snd ?run)))"
    unfolding desktop_run_writes by simp_all
  from t m have s:
    "staged_as (selected True False False)
       (Some ''src/aarch64/sysv.S'', ''darwin_osx/src/aarch64/sysv_arm64.S'')"
    "staged_as (selected True False False)
       (Some ''src/prep_cif.c'', ''darwin_common/src/prep_cif.c'')"
    by blast+
  have k: "os_path_join ''src'' ''prep_cif.c'' = ''src/prep_cif.c''"
    by code_simp
  have "CHR ''/'' \<notin> set ''prep_cif.c''" by simp
  with t m(2) have k2: "''darwin_common/src/prep_cif.c''
                          = os_path_join ''darwin_common/src'' ''prep_cif.c''"
    unfolding k by blast
  have n: "suffixed_name ''arm64'' ''sysv.S'' = ''sysv_arm64.S''"
          "suffixed_name ''arm64'' ''internal.h'' = ''internal.h''"
    by code_simp+
  have ok1: "fst ?m1 = Ok" by code_simp
  have ok2: "fst ?m2 = Ok" by code_simp
  have e1: "?m1 = (Ok, snd ?m1)" using ok1 by (simp add: prod_eq_iff)
  have e2: "?m2 = (Ok, snd ?m2)" using ok2 by (simp add: prod_eq_iff)
  have j: "os_path_join ''darwin_ios/include'' ''internal.h'' = ''darwin_ios/include/internal.h''"
          "os_path_join ''src/arm'' ''internal.h'' = ''src/arm/internal.h''"
          "os_path_join ''src/aarch64'' ''internal.h'' = ''src/aarch64/internal.h''"
    by code_simp+
  have r: "read_file all_sources ''src/arm/internal.h'' = Some ''i7''" by code_simp
  have r2: "read_file (snd ?m1) ''src/aarch64/internal.h'' = Some ''i8''" by code_simp
  have u: "universal_newlines ''i7'' = ''i7''" "universal_newlines ''i8'' = ''i8''"
    by code_simp+
  have h: "''internal.h'' \<in> set [''internal.h'', ''internal64.h'', ''asmnames.h''] \<and>
      ''armv7'' \<noteq> [] \<and> ''arm64'' \<noteq> [] \<and>
      os_path_join ''darwin_ios/include'' ''internal.h'' \<noteq> os_path_join ''src/arm'' ''internal.h'' \<and>
      os_path_join ''darwin_ios/include'' ''internal.h''
        \<noteq> os_path_join ''src/aarch64'' ''internal.h'' \<and>
      ?m1 = (Ok, snd ?m1) \<and> ?m2 = (Ok, snd ?m2)"
    unfolding j using e1 e2 by simp
  from t h have "\<exists>c1 c2.
       read_file all_sources (os_path_join ''src/arm'' ''internal.h'') = Some c1 \<and>
       read_file (snd ?m1) (os_path_join ''darwin_ios/include'' ''internal.h'')
         = Some (text_of (Some ''<'') @ universal_newlines c1 @ text_of (Some ''>'')) \<and>
       read_file (snd ?m1) (os_path_join ''src/aarch64'' ''internal.h'') = Some c2 \<and>
       read_file (snd ?m2) (os_path_join ''darwin_ios/include'' ''internal.h'')
         = Some (text_of (Some ''['') @ universal_newlines c2 @ text_of (Some '']''))"
    by blast
  then have c: "read_file (snd ?m1) ''darwin_ios/include/internal.h'' = Some ''<i7>''"
               "read_file (snd ?m2) ''darwin_ios/include/internal.h'' = Some ''[i8]''"
    unfolding j r r2 by (auto simp: u)
  from m s k k2 n ok1 ok2 c show ?thesis by simp
qed

text \<open>
  The common files are staged without a suffix: \<^verbatim>\<open>src/prep_cif.c\<close>, not one of the three
  exempted names, lands at \<^verbatim>\<open>darwin_common/src/prep_cif.c\<close>.
\<close>

theorem common_files_not_renamed:
  "read_file all_sources ''darwin_common/src/prep_cif.c'' = None \<and>
   read_file (snd (generate_source_and_headers (example_configure 0) True False False all_sources))
     ''darwin_common/src/prep_cif.c'' = Some ''prep'' \<and>
   ''prep_cif.c'' \<notin> set [''internal64.h'', ''asmnames.h'', ''internal.h'']"
  by code_simp

lemma out_filename_None [simp]: "out_filename None n = n"
  by (simp add: out_filename_def truthy_def)

section \<open>Families that are not generated\<close>

lemma within_comparable:
  assumes "within d q" "within d' q"
  shows "within d d' \<or> within d' d"
proof -
  from assms obtain r r' where
    r: "q = d @ r" "r = [] \<or> hd r = CHR ''/''" and r': "q = d' @ r'" "r' = [] \<or> hd r' = CHR ''/''"
    unfolding within_iff by blast
  from r(1) r'(1) have "d @ r = d' @ r'" by simp
  then obtain us where "(d = d' @ us \<and> us @ r = r') \<or> (d @ us = d' \<and> r = us @ r')"
    by (auto simp: append_eq_append_conv2)
  then show ?thesis
  proof
    assume a: "d = d' @ us \<and> us @ r = r'"
    have "us = [] \<or> hd us = CHR ''/''"
    proof (cases us)
      case Nil
      then show ?thesis by simp
    next
      case (Cons u us')
      with a r'(2) show ?thesis by auto
    qed
    with a have "within d' d" unfolding within_iff by blast
    then show ?thesis ..
  next
    assume a: "d @ us = d' \<and> r = us @ r'"
    have "us = [] \<or> hd us = CHR ''/''"
    proof (cases us)
      case Nil
      then show ?thesis by simp
    next
      case (Cons u us')
      with a r(2) show ?thesis by auto
    qed
    with a have "within d d'" unfolding within_iff by blast
    then show ?thesis ..
  qed
qed

lemma slashless_relative: "CHR ''/'' \<notin> set n \<Longrightarrow> \<not> absolute n"
  by (cases n) (auto simp: absolute_def)

lemma build_dir_nonempty: "build_dir_of p \<noteq> []"
  by (simp add: build_dir_of_def)

lemma staging_event_footprint:
  assumes "staging_event N src dst fs e"
  shows "e = Makedirs dst \<or>
         (\<exists>n. N n \<and> CHR ''/'' \<notin> set n \<and> e = Open_read (os_path_join src n)) \<or>
         (\<exists>n. N n \<and> CHR ''/'' \<notin> set n \<and> e = Open_write (os_path_join dst (out_filename fs n)))"
  using assms by (auto simp: staging_event_def)

lemma platform_event_footprint:
  assumes "platform_event p e" "tidy p"
  shows "footprint p e"
proof -
  let ?bd = "build_dir_of p" and ?inc = "platform_include p"
  have t: "last ?bd \<noteq> CHR ''/''" "?inc \<noteq> []" "last ?inc \<noteq> CHR ''/''"
    using assms(2) by (simp_all add: tidy_def)
  have ubd: "within ?bd (os_path_join ?bd n)" if "CHR ''/'' \<notin> set n" for n
    by (rule within_join [OF within_refl build_dir_nonempty t(1) slashless_relative [OF that]])
  have ubi: "within ?bd (os_path_join (os_path_join ?bd ''include'') n)"
    if "CHR ''/'' \<notin> set n" for n
  proof -
    have "within ?bd (os_path_join ?bd ''include'')"
      by (rule within_join [OF within_refl build_dir_nonempty t(1)]) (simp add: absolute_def)
    then show ?thesis
      by (rule within_join [OF _ build_dir_nonempty t(1) slashless_relative [OF that]])
  qed
  have uinc: "within ?inc (os_path_join ?inc (out_filename fs n))" if "CHR ''/'' \<notin> set n" for n fs
    by (rule within_join [OF within_refl t(2) t(3) out_filename_relative [OF that]])
  from assms(1) consider
    (src) "staging_event (\<lambda>n. n \<in> set (map os_path_basename (src_files p)))
             (platform_src p) (platform_dst p) (Some (arch p)) e"
  | (hdr) "staging_event (\<lambda>n. n \<in> set (map os_path_basename (hdr_files p)))
             (platform_src p) (platform_dst p) None e"
  | (mk) "e = Makedirs ?bd" | (cd) "e = Chdir ?bd" | (ret) c where "e = Chdir (CHR ''/'' # c)"
  | (cc) c status where
      "e = Check_call c [''../configure'', ''-host'', triple p] (build_env p) status"
  | (b1) "staging_event (\<lambda>n. True) ?bd ?inc (Some (arch p)) e"
  | (b2) "staging_event (\<lambda>n. True) (os_path_join ?bd ''include'') ?inc (Some (arch p)) e"
    unfolding platform_event_def by blast
  then show ?thesis
  proof cases
    case src
    from staging_event_footprint [OF this] show ?thesis
      by (auto simp: footprint_def source_reads_def staged_sources_def)
  next
    case hdr
    from staging_event_footprint [OF this] show ?thesis
      by (auto simp: footprint_def source_reads_def staged_sources_def)
  next
    case mk
    then show ?thesis by (simp add: footprint_def)
  next
    case cd
    then show ?thesis by (simp add: footprint_def)
  next
    case ret
    then show ?thesis by (simp add: footprint_def absolute_def)
  next
    case cc
    then show ?thesis by (simp add: footprint_def)
  next
    case b1
    from staging_event_footprint [OF this] show ?thesis
      using ubd uinc by (auto simp: footprint_def)
  next
    case b2
    from staging_event_footprint [OF this] show ?thesis
      using ubi uinc by (auto simp: footprint_def)
  qed
qed

lemma footprint_apart:
  assumes "footprint p' e" "apart p p'"
  shows "\<not> touches p e"
proof (cases e)
  case (Makedirs q)
  with assms show ?thesis by (auto simp: footprint_def apart_def)
next
  case (Open_read q)
  from assms(1) Open_read consider "q \<in> set (source_reads p')" | "within (build_dir_of p') q"
    by (auto simp: footprint_def)
  then show ?thesis
  proof cases
    case 1
    with assms(2) have "\<not> touches p (Open_read q)" by (auto simp: apart_def list_all_iff)
    with Open_read show ?thesis by simp
  next
    case 2
    show ?thesis
    proof
      assume "touches p e"
      with Open_read have "within (build_dir_of p) q" by (simp add: touches_def)
      from within_comparable [OF this 2] assms(2) show False by (auto simp: apart_def)
    qed
  qed
next
  case (Open_write q)
  from assms(1) Open_write consider "q \<in> set (staged_sources p')" | "within (platform_include p') q"
    by (auto simp: footprint_def)
  then show ?thesis
  proof cases
    case 1
    with assms(2) have "\<not> touches p (Open_write q)" by (auto simp: apart_def list_all_iff)
    with Open_write show ?thesis by simp
  next
    case 2
    show ?thesis
    proof
      assume "touches p e"
      with Open_write have "within (directory p) q" by (simp add: touches_def)
      from within_comparable [OF this 2] assms(2) show False by (auto simp: apart_def)
    qed
  qed
next
  case (Chdir q)
  with assms show ?thesis by (auto simp: footprint_def apart_def touches_def)
next
  case (Check_call c argv env status)
  with assms show ?thesis by (auto simp: footprint_def apart_def touches_def)
qed

lemma within_common_src: "CHR ''/'' \<notin> set n \<Longrightarrow> within ''darwin_common'' (os_path_join ''darwin_common/src'' n)"
  by (rule within_join [OF _ _ _ slashless_relative]) (simp_all add: within_def)

lemma within_common_include:
  "CHR ''/'' \<notin> set n \<Longrightarrow> within ''darwin_common'' (os_path_join ''darwin_common/include'' n)"
  by (rule within_join [OF _ _ _ slashless_relative]) (simp_all add: within_def)

lemma out_filename_None_eq: "out_filename None n = n"
  by (simp add: out_filename_def truthy_def)

lemma common_event_apart:
  assumes "common_event e" "apart_from_common p"
  shows "\<not> touches p e"
proof -
  have "(e = Makedirs ''darwin_common/src'' \<or> e = Makedirs ''darwin_common/include'') \<or>
        (\<exists>n. CHR ''/'' \<notin> set n \<and> e = Open_read (os_path_join ''src'' n)) \<or>
        (\<exists>n. CHR ''/'' \<notin> set n \<and> e = Open_read (os_path_join ''include'' n)) \<or>
        (\<exists>n. CHR ''/'' \<notin> set n \<and> e = Open_write (os_path_join ''darwin_common/src'' n)) \<or>
        (\<exists>n. CHR ''/'' \<notin> set n \<and> e = Open_write (os_path_join ''darwin_common/include'' n))"
    using assms(1) unfolding common_event_def
    by (auto dest!: staging_event_footprint simp: out_filename_None_eq)
  then consider
    (mk) "e = Makedirs ''darwin_common/src'' \<or> e = Makedirs ''darwin_common/include''"
  | (rs) n where "CHR ''/'' \<notin> set n" "e = Open_read (os_path_join ''src'' n)"
  | (ri) n where "CHR ''/'' \<notin> set n" "e = Open_read (os_path_join ''include'' n)"
  | (w) q where "within ''darwin_common'' q" "e = Open_write q"
    using within_common_src within_common_include by blast
  then show ?thesis
  proof cases
    case mk
    with assms(2) show ?thesis by (auto simp: apart_from_common_def)
  next
    case rs
    have u: "within ''src'' (os_path_join ''src'' n)"
      by (rule within_join [OF _ _ _ slashless_relative [OF rs(1)]]) (simp_all add: within_def)
    show ?thesis
    proof
      assume "touches p e"
      with rs(2) have "within (build_dir_of p) (os_path_join ''src'' n)" by (simp add: touches_def)
      from within_comparable [OF this u] assms(2) show False by (auto simp: apart_from_common_def)
    qed
  next
    case ri
    have u: "within ''include'' (os_path_join ''include'' n)"
      by (rule within_join [OF _ _ _ slashless_relative [OF ri(1)]]) (simp_all add: within_def)
    show ?thesis
    proof
      assume "touches p e"
      with ri(2) have "within (build_dir_of p) (os_path_join ''include'' n)"
        by (simp add: touches_def)
      from within_comparable [OF this u] assms(2) show False by (auto simp: apart_from_common_def)
    qed
  next
    case w
    show ?thesis
    proof
      assume "touches p e"
      with w(2) have "within (directory p) q" by (simp add: touches_def)
      from within_comparable [OF this w(1)] assms(2) show False
        by (auto simp: apart_from_common_def)
    qed
  qed
qed

lemma platforms_tidy: "list_all tidy platforms"
  by code_simp

lemma platforms_apart_from_common: "list_all apart_from_common platforms"
  by code_simp

lemma families_apart:
  "list_all (\<lambda>p. list_all (\<lambda>p'. directory p' = directory p \<or> apart p p') platforms) platforms"
  by code_simp

lemma family_platforms_set:
  "p \<in> set (family_platforms fam) \<longleftrightarrow> p \<in> set platforms \<and> directory p = family_directory fam"
  by (auto simp: family_platforms_def)

lemma selected_directory:
  "\<not> generated osx ios tvos fam \<Longrightarrow> p' \<in> set (selected osx ios tvos) \<Longrightarrow>
   directory p' \<noteq> family_directory fam"
  by (cases fam)
     (auto simp: generated_def selected_def family_directory_def
        ios_simulator64_platform_def ios_device_platform_def ios_device64_platform_def
        tvos_simulator64_platform_def tvos_device64_platform_def
        desktop_amd64_platform_def desktop_arm64_platform_def split: if_splits)

lemma directory_simps:
  "directory ios_simulator_platform = ''darwin_ios''"
  "directory ios_simulator64_platform = ''darwin_ios''"
  "directory ios_device_platform = ''darwin_ios''"
  "directory ios_device64_platform = ''darwin_ios''"
  "directory tvos_simulator64_platform = ''darwin_tvos''"
  "directory tvos_device64_platform = ''darwin_tvos''"
  "directory desktop_amd64_platform = ''darwin_osx''"
  "directory desktop_arm64_platform = ''darwin_osx''"
  by (simp_all add: ios_simulator_platform_def
        ios_simulator64_platform_def ios_device_platform_def ios_device64_platform_def
        tvos_simulator64_platform_def tvos_device64_platform_def
        desktop_amd64_platform_def desktop_arm64_platform_def)

lemma generated_selected:
  assumes "generated osx ios tvos fam" "p \<in> set (family_platforms fam)"
    "p \<noteq> ios_simulator_platform"
  shows "p \<in> set (selected osx ios tvos)"
  using assms
  by (cases fam)
     (auto simp: generated_def selected_def family_platforms_def family_directory_def
        platforms_def directory_simps split: if_splits)

lemma generate_untouched:
  assumes p: "p \<in> set platforms"
    and d: "\<forall>p'\<in>set (selected osx ios tvos). directory p' \<noteq> directory p"
    and e: "e \<in> set (new_events w (snd (generate_source_and_headers cmd osx ios tvos w)))"
  shows "\<not> touches p e"
proof -
  let ?ps = "selected osx ios tvos"
  from generate_events [of cmd osx ios tvos w] obtain es where
    es: "events (snd (generate_source_and_headers cmd osx ios tvos w)) = es @ events w"
        "list_all (run_event ?ps) es" by blast
  from e new_events_append [OF es(1)] es(2) have "run_event ?ps e" by (simp add: list_all_iff)
  then consider "common_event e" | p' where "p' \<in> set ?ps" "platform_event p' e"
    by (auto simp: run_event_def)
  then show ?thesis
  proof cases
    case 1
    have "apart_from_common p" using p platforms_apart_from_common by (simp add: list_all_iff)
    with 1 show ?thesis by (rule common_event_apart)
  next
    case 2
    have p': "p' \<in> set platforms" using 2(1) selected_subset [of osx ios tvos] by blast
    then have "tidy p'" using platforms_tidy by (simp add: list_all_iff)
    with 2(2) have f: "footprint p' e" by (rule platform_event_footprint)
    have "directory p' \<noteq> directory p" using d 2(1) by blast
    with p p' families_apart have "apart p p'" unfolding list_all_iff by blast
    with f show ?thesis by (rule footprint_apart)
  qed
qed

lemma build_all_tags:
  "set (entries (fst (snd (build_all cmd osx ios tvos w))) h) \<subseteq> tag_of ` set (selected osx ios tvos)"
proof -
  let ?ps = "selected osx ios tvos"
  let ?R = "\<lambda>s s'. \<forall>h. set (entries (fst s') h) \<subseteq> set (entries (fst s) h) \<union> tag_of ` set ?ps"
  have "?R ([], w) (snd (seq (map (build_target cmd) ?ps) ([], w)))"
  proof (rule seq_rel [where R = ?R])
    show "?R s s" for s by simp
    show "?R s u" if "?R s t" "?R t u" for s t u using that by blast
    show "?R s (snd (f s))" if "f \<in> set (map (build_target cmd) ?ps)" for f s
    proof -
      from that obtain p where p: "p \<in> set ?ps" "f = build_target cmd p" by auto
      from build_target_registry [of cmd p s] obtain names where
        "fst (snd (build_target cmd p s)) = add_all (tag_of p) names (fst s)" by blast
      with p show ?thesis by (auto simp: set_entries_add_all split: if_splits)
    qed
  qed
  then show ?thesis by (simp add: build_all_def entries_def)
qed

text \<open>
  Claim C5, as amended. The driver passes the desktop and the iOS switch of the command
  line on and always passes tvOS as off. For every family: when it is generated, each of
  its descriptors other than the 32-bit simulator is processed; when it is not generated,
  none of its descriptors is processed and no call of the run touches one of them (no
  file staged, no build directory made or entered, no configure run). The registry holds
  only tuples of processed descriptors, so a descriptor of a family that is not generated
  adds nothing to an umbrella header; its architecture still shows up there when a
  processed descriptor has the same tuple.
\<close>

theorem family_flags:
  "main cmd a w = generate_source_and_headers cmd (\<not> disable_osx a) (\<not> disable_ios a) False w \<and>
   (\<forall>fam. \<forall>p\<in>set (family_platforms fam).
      (generated generate_osx generate_ios generate_tvos fam \<and> p \<noteq> ios_simulator_platform
         \<longrightarrow> p \<in> set (selected generate_osx generate_ios generate_tvos)) \<and>
      (\<not> generated generate_osx generate_ios generate_tvos fam \<longrightarrow>
         p \<notin> set (selected generate_osx generate_ios generate_tvos) \<and>
         (\<forall>e\<in>set (new_events w
              (snd (generate_source_and_headers cmd generate_osx generate_ios generate_tvos w))).
            \<not> touches p e))) \<and>
   (\<forall>h. set (entries (fst (snd (build_all cmd generate_osx generate_ios generate_tvos w))) h)
         \<subseteq> tag_of ` set (selected generate_osx generate_ios generate_tvos))"
proof (intro conjI allI ballI impI)
  show "main cmd a w
      = generate_source_and_headers cmd (\<not> disable_osx a) (\<not> disable_ios a) False w"
    by (simp add: main_def)
next
  fix fam p
  assume "p \<in> set (family_platforms fam)"
    "generated generate_osx generate_ios generate_tvos fam \<and> p \<noteq> ios_simulator_platform"
  then show "p \<in> set (selected generate_osx generate_ios generate_tvos)"
    using generated_selected by blast
next
  fix fam p
  assume p: "p \<in> set (family_platforms fam)"
    and g: "\<not> generated generate_osx generate_ios generate_tvos fam"
  from selected_directory [OF g] p
  show "p \<notin> set (selected generate_osx generate_ios generate_tvos)"
    by (auto simp: family_platforms_set)
next
  fix fam p e
  assume p: "p \<in> set (family_platforms fam)"
    and g: "\<not> generated generate_osx generate_ios generate_tvos fam"
    and e: "e \<in> set (new_events w
              (snd (generate_source_and_headers cmd generate_osx generate_ios generate_tvos w)))"
  have "\<forall>p'\<in>set (selected generate_osx generate_ios generate_tvos). directory p' \<noteq> directory p"
    using selected_directory [OF g] p by (simp add: family_platforms_set)
  with p e show "\<not> touches p e"
    by (intro generate_untouched [where p = p]) (simp_all add: family_platforms_set)
next
  fix h
  show "set (entries (fst (snd (build_all cmd generate_osx generate_ios generate_tvos w))) h)
         \<subseteq> tag_of ` set (selected generate_osx generate_ios generate_tvos)"
    by (rule build_all_tags)
qed

theorem family_flags_witness:
  "ios_device64_platform \<in> set (family_platforms Ios) \<and>
   \<not> generated True False False Ios \<and>
   Open_write ''darwin_osx/src/aarch64/sysv_arm64.S'' \<in> set (new_events all_sources
     (snd (generate_source_and_headers (example_configure 0) True False False all_sources))) \<and>
   \<not> touches ios_device64_platform (Open_write ''darwin_osx/src/aarch64/sysv_arm64.S'') \<and>
   desktop_arm64_platform \<in> set (family_platforms Osx) \<and>
   generated True False False Osx \<and>
   desktop_arm64_platform \<in> set (selected True False False)"
proof -
  have i: "ios_device64_platform \<in> set (family_platforms Ios)"
    by (simp add: family_platforms_set platforms_def directory_simps family_directory_def)
  have d: "desktop_arm64_platform \<in> set (family_platforms Osx)"
    by (simp add: family_platforms_set platforms_def directory_simps family_directory_def)
  have gi: "\<not> generated True False False Ios" and go: "generated True False False Osx"
    by (simp_all add: generated_def)
  have ne: "desktop_arm64_platform \<noteq> ios_simulator_platform"
    by (simp add: desktop_arm64_platform_def ios_simulator_platform_def)
  note t = family_flags [of "example_configure 0" _ all_sources True False False]
  from t i gi desktop_run_writes_sysv
  have 1: "\<not> touches ios_device64_platform (Open_write ''darwin_osx/src/aarch64/sysv_arm64.S'')"
    by blast
  from t d go ne have 2: "desktop_arm64_platform \<in> set (selected True False False)"
    by blast
  from i d gi go 1 2 desktop_run_writes_sysv show ?thesis by blast
qed

text \<open>
  Two runs against the claim as first stated. With the iOS and the desktop family switched
  off and no tvOS flag given, the run succeeds and makes no tvOS directory: the absence
  of the tvOS flag does not generate tvOS. With only the desktop family switched off, the
  umbrella \<^verbatim>\<open>ffi.h\<close> includes \<^verbatim>\<open>ffi_arm64.h\<close> and \<^verbatim>\<open>ffi_x86_64.h\<close>: the two desktop
  architectures appear, recorded by the iOS descriptors.
\<close>

theorem family_flags_counterexample:
  "fst (main (example_configure 0)
     \<lparr>disable_ios = True, disable_tvos = False, disable_osx = True\<rparr> all_sources) = Ok \<and>
   dirs (snd (main (example_configure 0)
     \<lparr>disable_ios = True, disable_tvos = False, disable_osx = True\<rparr> all_sources))
   = [''src'', ''include'', ''src/x86'', ''src/arm'', ''src/aarch64'',
      ''darwin_common'', ''darwin_common/src'', ''darwin_common/include''] \<and>
   arch desktop_arm64_platform = ''arm64'' \<and>
   arch desktop_amd64_platform = ''x86_64'' \<and>
   read_file (snd (main (example_configure 0)
     \<lparr>disable_ios = False, disable_tvos = False, disable_osx = True\<rparr> all_sources))
     ''darwin_common/include/ffi.h''
   = Some (''#ifdef __arm64__'' @ newline @ newline @ ''#include <ffi_arm64.h>'' @ newline
             @ newline @ newline @ ''#endif'' @ newline @
           ''#ifdef __arm__'' @ newline @ newline @ ''#include <ffi_armv7.h>'' @ newline
             @ newline @ newline @ ''#endif'' @ newline @
           ''#ifdef __x86_64__'' @ newline @ newline @ ''#include <ffi_x86_64.h>'' @ newline
             @ newline @ newline @ ''#endif'' @ newline)"
  by code_simp

text \<open>
  Claim C6. The tvOS flag of the command line changes nothing: with and without it the
  driver does the same, no tvOS descriptor is among the processed ones, and no call of
  the run touches a tvOS descriptor.
\<close>

theorem tvos_never_generated:
  "main cmd (a\<lparr>disable_tvos := flag\<rparr>) w = main cmd a w \<and>
   (\<forall>p\<in>set (family_platforms Tvos).
      p \<notin> set (selected (\<not> disable_osx a) (\<not> disable_ios a) False) \<and>
      (\<forall>e\<in>set (new_events w (snd (main cmd a w))). \<not> touches p e))"
proof (intro conjI ballI)
  show "main cmd (a\<lparr>disable_tvos := flag\<rparr>) w = main cmd a w" by (simp add: main_def)
next
  fix p
  assume p: "p \<in> set (family_platforms Tvos)"
  have g: "\<not> generated (\<not> disable_osx a) (\<not> disable_ios a) False Tvos"
    by (simp add: generated_def)
  from selected_directory [OF g] p
  show "p \<notin> set (selected (\<not> disable_osx a) (\<not> disable_ios a) False)"
    by (auto simp: family_platforms_set)
  fix e
  assume e: "e \<in> set (new_events w (snd (main cmd a w)))"
  have "\<forall>p'\<in>set (selected (\<not> disable_osx a) (\<not> disable_ios a) False).
          directory p' \<noteq> directory p"
    using selected_directory [OF g] p by (simp add: family_platforms_set)
  with p e show "\<not> touches p e"
    by (intro generate_untouched [where p = p]) (simp_all add: family_platforms_set main_def)
qed

lemma common_run_writes_prep_cif:
  "Open_write ''darwin_common/src/prep_cif.c'' \<in> set (new_events all_sources
     (snd (main (example_configure 0)
        \<lparr>disable_ios = True, disable_tvos = False, disable_osx = True\<rparr> all_sources)))"
  by code_simp

theorem tvos_never_generated_witness:
  "main (example_configure 0)
     \<lparr>disable_ios = True, disable_tvos = True, disable_osx = True\<rparr> all_sources
   = main (example_configure 0)
     \<lparr>disable_ios = True, disable_tvos = False, disable_osx = True\<rparr> all_sources \<and>
   tvos_device64_platform \<in> set (family_platforms Tvos) \<and>
   Open_write ''darwin_common/src/prep_cif.c'' \<in> set (new_events all_sources
     (snd (main (example_configure 0)
        \<lparr>disable_ios = True, disable_tvos = False, disable_osx = True\<rparr> all_sources))) \<and>
   \<not> touches tvos_device64_platform (Open_write ''darwin_common/src/prep_cif.c'')"
proof -
  let ?a = "\<lparr>disable_ios = True, disable_tvos = False, disable_osx = True\<rparr>"
  have p: "tvos_device64_platform \<in> set (family_platforms Tvos)"
    by (simp add: family_platforms_set platforms_def directory_simps family_directory_def)
  note t = tvos_never_generated [where cmd = "example_configure 0" and a = ?a
      and flag = True and w = all_sources]
  from t have 1: "main (example_configure 0)
     \<lparr>disable_ios = True, disable_tvos = True, disable_osx = True\<rparr> all_sources
   = main (example_configure 0) ?a all_sources" by simp
  from t p common_run_writes_prep_cif
  have 2: "\<not> touches tvos_device64_platform (Open_write ''darwin_common/src/prep_cif.c'')"
    by blast
  from 1 2 p common_run_writes_prep_cif show ?thesis by blast
qed

section \<open>The 32-bit simulator descriptor\<close>

lemma footprint_distinct:
  assumes "footprint p' e" "calls_distinct p p'"
  shows "\<not> own_call p e"
proof (cases e)
  case (Makedirs q)
  with assms show ?thesis by (auto simp: footprint_def calls_distinct_def own_call_def)
next
  case (Open_read q)
  show ?thesis
  proof
    assume "own_call p e"
    with Open_read have o: "q \<in> set (source_reads p) \<or> within (build_dir_of p) q"
      by (simp add: own_call_def)
    from assms(1) Open_read have f: "q \<in> set (source_reads p') \<or> within (build_dir_of p') q"
      by (simp add: footprint_def)
    show False
    proof (cases "q \<in> set (source_reads p)")
      case True
      with f assms(2) show False by (auto simp: calls_distinct_def list_all_iff)
    next
      case False
      with o have b: "within (build_dir_of p) q" by simp
      show False
      proof (cases "q \<in> set (source_reads p')")
        case True
        with b assms(2) show False by (auto simp: calls_distinct_def list_all_iff)
      next
        case False
        with f have "within (build_dir_of p') q" by simp
        from within_comparable [OF b this] assms(2) show False
          by (auto simp: calls_distinct_def)
      qed
    qed
  qed
next
  case (Open_write q)
  with assms show ?thesis
    by (auto simp: footprint_def calls_distinct_def own_call_def list_all_iff)
next
  case (Chdir q)
  with assms show ?thesis by (auto simp: footprint_def calls_distinct_def own_call_def)
next
  case (Check_call c argv env status)
  with assms show ?thesis by (auto simp: footprint_def calls_distinct_def own_call_def)
qed

lemma direct_join:
  assumes "CHR ''/'' \<notin> set n" "d \<noteq> []" "last d \<noteq> CHR ''/''"
  shows "direct d (os_path_join d n)"
  using assms join_relative [OF slashless_relative [OF assms(1)] assms(2,3)]
  by (simp add: direct_def)

lemma common_event_distinct:
  assumes "common_event e" "calls_distinct_from_common p"
  shows "\<not> own_call p e"
proof -
  have "(e = Makedirs ''darwin_common/src'' \<or> e = Makedirs ''darwin_common/include'') \<or>
        (\<exists>n. CHR ''/'' \<notin> set n \<and> e = Open_read (os_path_join ''src'' n)) \<or>
        (\<exists>n. CHR ''/'' \<notin> set n \<and> e = Open_read (os_path_join ''include'' n)) \<or>
        (\<exists>n. CHR ''/'' \<notin> set n \<and> e = Open_write (os_path_join ''darwin_common/src'' n)) \<or>
        (\<exists>n. CHR ''/'' \<notin> set n \<and> e = Open_write (os_path_join ''darwin_common/include'' n))"
    using assms(1) unfolding common_event_def
    by (auto dest!: staging_event_footprint)
  then consider
    (mk) "e = Makedirs ''darwin_common/src'' \<or> e = Makedirs ''darwin_common/include''"
  | (rs) n where "CHR ''/'' \<notin> set n" "e = Open_read (os_path_join ''src'' n)"
  | (ri) n where "CHR ''/'' \<notin> set n" "e = Open_read (os_path_join ''include'' n)"
  | (w) q where "within ''darwin_common'' q" "e = Open_write q"
    using within_common_src within_common_include by blast
  then show ?thesis
  proof cases
    case mk
    with assms(2) show ?thesis by (auto simp: calls_distinct_from_common_def own_call_def)
  next
    case rs
    have u: "within ''src'' (os_path_join ''src'' n)"
      by (rule within_join [OF _ _ _ slashless_relative [OF rs(1)]]) (simp_all add: within_def)
    have d: "direct ''src'' (os_path_join ''src'' n)"
      by (rule direct_join [OF rs(1)]) simp_all
    show ?thesis
    proof
      assume "own_call p e"
      with rs(2) consider "os_path_join ''src'' n \<in> set (source_reads p)"
        | "within (build_dir_of p) (os_path_join ''src'' n)" by (auto simp: own_call_def)
      then show False
      proof cases
        case 1
        with d assms(2) show False by (auto simp: calls_distinct_from_common_def list_all_iff)
      next
        case 2
        from within_comparable [OF 2 u] assms(2) show False
          by (auto simp: calls_distinct_from_common_def)
      qed
    qed
  next
    case ri
    have u: "within ''include'' (os_path_join ''include'' n)"
      by (rule within_join [OF _ _ _ slashless_relative [OF ri(1)]]) (simp_all add: within_def)
    have d: "direct ''include'' (os_path_join ''include'' n)"
      by (rule direct_join [OF ri(1)]) simp_all
    show ?thesis
    proof
      assume "own_call p e"
      with ri(2) consider "os_path_join ''include'' n \<in> set (source_reads p)"
        | "within (build_dir_of p) (os_path_join ''include'' n)" by (auto simp: own_call_def)
      then show False
      proof cases
        case 1
        with d assms(2) show False by (auto simp: calls_distinct_from_common_def list_all_iff)
      next
        case 2
        from within_comparable [OF 2 u] assms(2) show False
          by (auto simp: calls_distinct_from_common_def)
      qed
    qed
  next
    case w
    with assms(2) show ?thesis
      by (auto simp: calls_distinct_from_common_def own_call_def list_all_iff)
  qed
qed

lemma simulator_calls_distinct:
  "list_all (calls_distinct ios_simulator_platform) (selected True True True)"
  by code_simp

lemma simulator_calls_distinct_from_common: "calls_distinct_from_common ios_simulator_platform"
  by code_simp

lemma selected_all: "set (selected osx ios tvos) \<subseteq> set (selected True True True)"
  by (auto simp: selected_def)

lemma selected_ios:
  "filter (\<lambda>p. directory p = ''darwin_ios'') (selected osx ios tvos) =
     (if ios then [ios_simulator64_platform, ios_device_platform, ios_device64_platform] else [])"
  by (simp add: selected_def directory_simps)

lemma simulator_not_selected: "ios_simulator_platform \<notin> set (selected osx ios tvos)"
proof -
  have "ios_simulator_platform \<notin> set (selected True True True)"
    by (simp add: selected_def ios_simulator_platform_def
        ios_simulator64_platform_def ios_device_platform_def ios_device64_platform_def
        tvos_simulator64_platform_def tvos_device64_platform_def
        desktop_amd64_platform_def desktop_arm64_platform_def)
  with selected_all [of osx ios tvos] show ?thesis by blast
qed

text \<open>
  Claim C10. The descriptor of the 32-bit iOS simulator is in the table, but no run
  processes it, whatever the flags: it is not among the processed descriptors (with iOS
  generated these are the three other iOS descriptors), and no call of a run is one of its
  own calls: its build directory is never made or entered, no command runs in its build
  environment, none of its sources is read and none of its staged files is written.
\<close>

theorem simulator32_never_processed:
  "ios_simulator_platform \<in> set platforms \<and>
   ios_simulator_platform \<notin> set (selected generate_osx generate_ios generate_tvos) \<and>
   filter (\<lambda>p. directory p = ''darwin_ios'') (selected generate_osx generate_ios generate_tvos) =
     (if generate_ios
      then [ios_simulator64_platform, ios_device_platform, ios_device64_platform] else []) \<and>
   (\<forall>e\<in>set (new_events w
        (snd (generate_source_and_headers cmd generate_osx generate_ios generate_tvos w))).
      \<not> own_call ios_simulator_platform e)"
proof (intro conjI ballI)
  show "ios_simulator_platform \<in> set platforms" by (simp add: platforms_def)
  show "ios_simulator_platform \<notin> set (selected generate_osx generate_ios generate_tvos)"
    by (rule simulator_not_selected)
  show "filter (\<lambda>p. directory p = ''darwin_ios'')
          (selected generate_osx generate_ios generate_tvos) =
     (if generate_ios
      then [ios_simulator64_platform, ios_device_platform, ios_device64_platform] else [])"
    by (rule selected_ios)
next
  fix e
  let ?ps = "selected generate_osx generate_ios generate_tvos"
  assume e: "e \<in> set (new_events w
        (snd (generate_source_and_headers cmd generate_osx generate_ios generate_tvos w)))"
  from generate_events [of cmd generate_osx generate_ios generate_tvos w] obtain es where
    es: "events (snd (generate_source_and_headers cmd generate_osx generate_ios generate_tvos w))
           = es @ events w" "list_all (run_event ?ps) es" by blast
  from e new_events_append [OF es(1)] es(2) have "run_event ?ps e" by (simp add: list_all_iff)
  then consider "common_event e" | p' where "p' \<in> set ?ps" "platform_event p' e"
    by (auto simp: run_event_def)
  then show "\<not> own_call ios_simulator_platform e"
  proof cases
    case 1
    then show ?thesis
      using simulator_calls_distinct_from_common by (rule common_event_distinct)
  next
    case 2
    have "p' \<in> set platforms"
      using 2(1) selected_subset [of generate_osx generate_ios generate_tvos] by blast
    then have "tidy p'" using platforms_tidy by (simp add: list_all_iff)
    with 2(2) have f: "footprint p' e" by (rule platform_event_footprint)
    have "calls_distinct ios_simulator_platform p'"
      using 2(1) selected_all [of generate_osx generate_ios generate_tvos]
        simulator_calls_distinct unfolding list_all_iff by blast
    with f show ?thesis by (rule footprint_distinct)
  qed
qed

lemma ios_run_makes_build_dir:
  "Makedirs ''build_iphonesimulator-x86_64'' \<in> set (new_events all_sources
     (snd (generate_source_and_headers (example_configure 0) False True False all_sources)))"
  by code_simp

theorem simulator32_never_processed_witness:
  "Makedirs ''build_iphonesimulator-x86_64'' \<in> set (new_events all_sources
     (snd (generate_source_and_headers (example_configure 0) False True False all_sources))) \<and>
   \<not> own_call ios_simulator_platform (Makedirs ''build_iphonesimulator-x86_64'') \<and>
   own_call ios_simulator_platform (Makedirs ''build_iphonesimulator-i386'') \<and>
   Makedirs ''build_iphonesimulator-i386'' \<notin> set (new_events all_sources
     (snd (generate_source_and_headers (example_configure 0) False True False all_sources)))"
proof -
  note t = simulator32_never_processed [of False True False all_sources "example_configure 0"]
  have o: "own_call ios_simulator_platform (Makedirs ''build_iphonesimulator-i386'')"
    by code_simp
  from t ios_run_makes_build_dir
  have 1: "\<not> own_call ios_simulator_platform (Makedirs ''build_iphonesimulator-x86_64'')"
    by blast
  from t o have 2: "Makedirs ''build_iphonesimulator-i386'' \<notin> set (new_events all_sources
     (snd (generate_source_and_headers (example_configure 0) False True False all_sources)))"
    by blast
  from 1 2 o ios_run_makes_build_dir show ?thesis by blast
qed

end
